theory Spec2Isabelle
  imports Main "HOL-Library.Sublist"
begin

section \<open>Terminal console core of polymarket-demo.ts\<close>

text \<open>
  A shallow embedding of the pure helpers of \<^verbatim>\<open>src/polymarket-demo.ts\<close>: the scroll
  window of the two panels, the message update, the line wrapper, the streaming tag
  tracker, the mouse-scroll decoder and the input scrubber.

  JavaScript strings are sequences of code units; they are modelled as \<^typ>\<open>string\<close>, so
  \<open>length\<close>, \<open>take\<close> and \<open>drop\<close> count code units as \<^verbatim>\<open>.length\<close> and
  \<^verbatim>\<open>.slice\<close> do. The numbers that occur (line counts, widths, offsets) are integers
  in the program and are modelled as \<^typ>\<open>int\<close>. The program computes with them in
  double precision, which is exact on integers of absolute value at most
  \<^verbatim>\<open>Number.MAX_SAFE_INTEGER\<close>; the scroll window below is stated on that range.
\<close>

subsection \<open>Chat messages\<close>

datatype ChatRole = User | Assistant | System

text \<open>
  \<^verbatim>\<open>type ChatMessage = { id; role; content; timestamp }\<close>. The field \<^verbatim>\<open>id\<close> is
  called \<open>msgId\<close> here, since \<open>id\<close> is the identity function of HOL.
\<close>

record ChatMessage =
  msgId :: string
  role :: ChatRole
  content :: string
  timestamp :: int

text \<open>
  \<^verbatim>\<open>prev.map((msg) => (msg.id === id ? { ...msg, content } : msg))\<close>
\<close>

definition updateMessage :: "string \<Rightarrow> string \<Rightarrow> ChatMessage list \<Rightarrow> ChatMessage list" where
  "updateMessage i c prev = map (\<lambda>msg. if msgId msg = i then msg\<lparr>content := c\<rparr> else msg) prev"

subsection \<open>Scroll window\<close>

text \<open>\<^verbatim>\<open>Number.MAX_SAFE_INTEGER\<close>, the largest \<open>n\<close> such that doubles represent \<open>n\<close> and \<open>n + 1\<close> exactly.\<close>

definition MAX_SAFE_INTEGER :: int where
  "MAX_SAFE_INTEGER = 2 ^ 53 - 1"

text \<open>
  The window computation that \<^verbatim>\<open>ChatPanel\<close> and \<^verbatim>\<open>SidebarPanel\<close> both carry out,
  on the number of lines, the height left for them and the scroll offset handed in:
  \<^verbatim>\<open>
  const maxScroll = Math.max(0, totalLines - messagesHeight);
  const effectiveOffset = Math.min(scrollOffset, maxScroll);
  const startIdx = Math.max(0, totalLines - messagesHeight - effectiveOffset);
  const endIdx = Math.min(totalLines, startIdx + messagesHeight);
  \<close>
  The program computes these in double precision. \<^verbatim>\<open>totalLines\<close> is the length of an
  array, \<^verbatim>\<open>messagesHeight\<close> is \<^verbatim>\<open>Math.max(0, height - 1)\<close>, and \<^verbatim>\<open>scrollOffset\<close> is
  the state that \<open>applyScroll\<close> below maintains. The model is the code's function on
  integers between \<open>0\<close> and \<open>MAX_SAFE_INTEGER\<close>: there every intermediate result is an
  integer of absolute value at most \<open>MAX_SAFE_INTEGER\<close> (lemma
  \<open>scrollWindow_intermediates_exact\<close>), so no operation rounds.
\<close>

record ScrollWindow =
  maxScroll :: int
  effectiveOffset :: int
  startIdx :: int
  endIdx :: int

definition scrollWindow :: "int \<Rightarrow> int \<Rightarrow> int \<Rightarrow> ScrollWindow" where
  "scrollWindow totalLines messagesHeight scrollOffset =
     (let maxScroll = max 0 (totalLines - messagesHeight);
          effectiveOffset = min scrollOffset maxScroll;
          startIdx = max 0 (totalLines - messagesHeight - effectiveOffset);
          endIdx = min totalLines (startIdx + messagesHeight)
      in \<lparr>maxScroll = maxScroll, effectiveOffset = effectiveOffset,
          startIdx = startIdx, endIdx = endIdx\<rparr>)"

text \<open>
  The scroll offsets are module-private state, \<^verbatim>\<open>useState(0)\<close>, and the panels are given
  nothing else. Every update of an offset is one of these, with \<open>m\<close> the
  \<^verbatim>\<open>chatMaxScroll\<close> or \<^verbatim>\<open>sidebarMaxScroll\<close> of the moment (itself a \<^verbatim>\<open>maxScroll\<close>
  reported by a panel, or the initial \<open>0\<close>):
  \<^verbatim>\<open>
  setScrollOffset(0)
  setScrollOffset((prev) => Math.max(0, Math.min(chatMaxScroll, prev + scroll.delta)))
  setScrollOffset((prev) => Math.min(chatMaxScroll, prev + 10))
  setScrollOffset((prev) => Math.max(0, prev - 10))
  setScrollOffset((prev) => Math.max(0, Math.min(chatMaxScroll, prev + delta)))
  \<close>
  the last with \<^verbatim>\<open>delta = key.upArrow ? 1 : -1\<close>.
\<close>

datatype ScrollUpdate = Reset | Wheel int | PageUp | PageDown | Arrow bool

fun applyScroll :: "int \<Rightarrow> ScrollUpdate \<Rightarrow> int \<Rightarrow> int" where
  "applyScroll m Reset prev = 0"
| "applyScroll m (Wheel d) prev = max 0 (min m (prev + d))"
| "applyScroll m PageUp prev = min m (prev + 10)"
| "applyScroll m PageDown prev = max 0 (prev - 10)"
| "applyScroll m (Arrow upArrow) prev = max 0 (min m (prev + (if upArrow then 1 else - 1)))"

text \<open>
  The offset after a list of updates, each with the maximal scroll of its moment, from
  the initial state \<open>0\<close>.
\<close>

definition scrollOffsetAfter :: "(int \<times> ScrollUpdate) list \<Rightarrow> int" where
  "scrollOffsetAfter updates = foldl (\<lambda>prev (m, u). applyScroll m u prev) 0 updates"


subsection \<open>Line wrapper\<close>

text \<open>
  \<^verbatim>\<open>s.split(sep)\<close> for a separator of one character: the pieces between the
  separators, one more than there are separators, so \<^verbatim>\<open>"".split(sep)\<close> is \<^verbatim>\<open>[""]\<close>.
\<close>

fun splitOn :: "char \<Rightarrow> string \<Rightarrow> string list" where
  "splitOn sep [] = [[]]"
| "splitOn sep (x # xs) =
     (if x = sep then [] # splitOn sep xs
      else (case splitOn sep xs of
              [] \<Rightarrow> [[x]]
            | piece # pieces \<Rightarrow> (x # piece) # pieces))"

text \<open>
  The inner loop of \<^verbatim>\<open>wrapText\<close>, which cuts a word longer than the width:
  \<^verbatim>\<open>
  while (remaining.length > maxWidth) {
    lines.push(remaining.slice(0, maxWidth));
    remaining = remaining.slice(maxWidth);
  }
  \<close>
  It returns the lines pushed and the final \<^verbatim>\<open>remaining\<close>. The loop is only reached
  after \<^verbatim>\<open>if (maxWidth <= 0) return [text]\<close>, so \<open>0 < maxWidth\<close> holds in it; the test
  is repeated here, where it is what makes the recursion terminate.
\<close>

function hardSplit :: "int \<Rightarrow> string \<Rightarrow> string list \<times> string" where
  "hardSplit maxWidth remaining =
     (if 0 < maxWidth \<and> int (length remaining) > maxWidth
      then (let (pushed, rest) = hardSplit maxWidth (drop (nat maxWidth) remaining)
            in (take (nat maxWidth) remaining # pushed, rest))
      else ([], remaining))"
  by pat_completeness auto
termination
  by (relation "measure (\<lambda>(maxWidth, remaining). length remaining)") auto

declare hardSplit.simps [simp del]

text \<open>
  One round of \<^verbatim>\<open>for (const word of words)\<close> on the pair of \<^verbatim>\<open>lines\<close> and
  \<^verbatim>\<open>current\<close>:
  \<^verbatim>\<open>
  const next = current.length > 0 ? `${current} ${word}` : word;
  if (next.length <= maxWidth) { current = next; continue; }
  if (current.length > 0) lines.push(current);
  if (word.length > maxWidth) { ...hard split...; current = remaining; }
  else current = word;
  \<close>
\<close>

definition wordStep :: "int \<Rightarrow> string list \<times> string \<Rightarrow> string \<Rightarrow> string list \<times> string" where
  "wordStep maxWidth st word =
     (let (lines, current) = st;
          next = (if length current > 0 then current @ '' '' @ word else word)
      in if int (length next) \<le> maxWidth then (lines, next)
         else (let lines1 = (if length current > 0 then lines @ [current] else lines)
               in if int (length word) > maxWidth
                  then (let (pushed, rest) = hardSplit maxWidth word
                        in (lines1 @ pushed, rest))
                  else (lines1, word)))"

text \<open>
  One round of \<^verbatim>\<open>for (const paragraph of paragraphs)\<close> on \<^verbatim>\<open>lines\<close>: a paragraph
  that fits is pushed as it is; otherwise its words (split at spaces) are packed and the
  last \<^verbatim>\<open>current\<close> is pushed when it is not empty.
\<close>

definition paragraphStep :: "int \<Rightarrow> string list \<Rightarrow> string \<Rightarrow> string list" where
  "paragraphStep maxWidth lines paragraph =
     (if int (length paragraph) \<le> maxWidth then lines @ [paragraph]
      else (let (lines1, current) =
                  foldl (wordStep maxWidth) (lines, []) (splitOn CHR '' '' paragraph)
            in if length current > 0 then lines1 @ [current] else lines1))"

text \<open>
  \<^verbatim>\<open>function wrapText(text: string, maxWidth: number): string[]\<close>, with the width an
  integer (the callers pass \<^verbatim>\<open>Math.max(10, width - 2)\<close> and the like).
\<close>

definition wrapText :: "string \<Rightarrow> int \<Rightarrow> string list" where
  "wrapText text maxWidth =
     (if maxWidth \<le> 0 then [text]
      else (let lines = foldl (paragraphStep maxWidth) [] (splitOn CHR 0x0A text)
            in if length lines > 0 then lines else [[]]))"

subsection \<open>Streaming tag tracker\<close>

text \<open>
  \<^verbatim>\<open>s.indexOf(pat)\<close>: the first index at which \<open>pat\<close> occurs in \<open>s\<close>, and \<open>-1\<close> when
  it does not occur.
\<close>

fun indexOf :: "string \<Rightarrow> string \<Rightarrow> int" where
  "indexOf [] pat = (if pat = [] then 0 else - 1)"
| "indexOf (x # xs) pat =
     (if prefix pat (x # xs) then 0
      else (let i = indexOf xs pat in if i = - 1 then - 1 else i + 1))"

text \<open>\<^verbatim>\<open>type StreamTagState = { opened: boolean; done: boolean; text: string }\<close>\<close>

record StreamTagState =
  opened :: bool
  "done" :: bool
  "text" :: string

text \<open>
  \<^verbatim>\<open>function extractTagFromBuffer(buffer: { value: string }, tag, state): void\<close>. The
  function mutates the buffer and the state; the model returns both.
  \<^verbatim>\<open>
  if (state.done) return;
  if (!state.opened) {
    const openIdx = buffer.value.indexOf(openTag);
    if (openIdx === -1) return;
    buffer.value = buffer.value.slice(openIdx + openTag.length);
    state.opened = true;
  }
  if (!state.opened) return;
  const closeIdx = buffer.value.indexOf(closeTag);
  if (closeIdx !== -1) {
    state.text += buffer.value.slice(0, closeIdx);
    buffer.value = buffer.value.slice(closeIdx + closeTag.length);
    state.done = true;
    return;
  }
  if (buffer.value.length > closeTag.length) {
    state.text += buffer.value.slice(0, buffer.value.length - closeTag.length);
    buffer.value = buffer.value.slice(buffer.value.length - closeTag.length);
  }
  \<close>
\<close>

definition extractTagFromBuffer :: "string \<Rightarrow> string \<Rightarrow> StreamTagState \<Rightarrow> string \<times> StreamTagState" where
  "extractTagFromBuffer buffer tag state =
     (if done state then (buffer, state)
      else
        (let openTag = ''<'' @ tag @ ''>'';
             closeTag = ''</'' @ tag @ ''>'';
             openIdx = indexOf buffer openTag
         in if \<not> opened state \<and> openIdx = - 1 then (buffer, state)
            else
              (let (buffer1, state1) =
                     (if \<not> opened state
                      then (drop (nat openIdx + length openTag) buffer, state\<lparr>opened := True\<rparr>)
                      else (buffer, state))
               in if \<not> opened state1 then (buffer1, state1)
                  else
                    (let closeIdx = indexOf buffer1 closeTag
                     in if closeIdx \<noteq> - 1
                        then (drop (nat closeIdx + length closeTag) buffer1,
                              state1\<lparr>text := text state1 @ take (nat closeIdx) buffer1,
                                      done := True\<rparr>)
                        else if length buffer1 > length closeTag
                        then (drop (length buffer1 - length closeTag) buffer1,
                              state1\<lparr>text := text state1
                                        @ take (length buffer1 - length closeTag) buffer1\<rparr>)
                        else (buffer1, state1)))))"

text \<open>
  What \<^verbatim>\<open>onStreamChunk\<close> does for one tracked tag:
  \<^verbatim>\<open>buffer.value += chunk; extractTagFromBuffer(buffer, tag, state);\<close>
\<close>

definition pushChunk :: "string \<Rightarrow> string \<times> StreamTagState \<Rightarrow> string \<Rightarrow> string \<times> StreamTagState" where
  "pushChunk tag bs chunk = extractTagFromBuffer (fst bs @ chunk) tag (snd bs)"

text \<open>\<^verbatim>\<open>{ opened: false, done: false, text: "" }\<close>, the state every tracker starts in.\<close>

definition initialTagState :: StreamTagState where
  "initialTagState = \<lparr>opened = False, done = False, text = []\<rparr>"

text \<open>The chunks of a stream, pushed in order into an empty buffer and a fresh tracker.\<close>

definition feedChunks :: "string \<Rightarrow> string list \<Rightarrow> string \<times> StreamTagState" where
  "feedChunks tag chunks = foldl (pushChunk tag) ([], initialTagState) chunks"

text \<open>
  The invariant used in the proof about chunked streams. \<open>seen\<close> is the part of the stream
  appended so far, \<open>a\<close> the index just after the open marker, \<open>inner\<close> the text between
  the markers: before the open marker is complete the tracker waits and the buffer holds
  all of \<open>seen\<close>; until the close marker is complete the accumulated text followed by the
  buffer is what was seen after the open marker, and the text is no longer than \<open>inner\<close>;
  afterwards the tracker is done with \<open>inner\<close>.
\<close>

definition tracking :: "string \<Rightarrow> nat \<Rightarrow> string \<Rightarrow> string \<Rightarrow> string \<times> StreamTagState \<Rightarrow> bool" where
  "tracking tag a inner seen bs =
     (if length seen < a
      then \<not> opened (snd bs) \<and> \<not> done (snd bs) \<and> text (snd bs) = [] \<and> fst bs = seen
      else if length seen < a + length inner + length (''</'' @ tag @ ''>'')
      then opened (snd bs) \<and> \<not> done (snd bs) \<and> text (snd bs) @ fst bs = drop a seen
           \<and> length (text (snd bs)) \<le> length inner
      else done (snd bs) \<and> text (snd bs) = inner)"

subsection \<open>Regular expressions of the input handling\<close>

text \<open>
  \<^verbatim>\<open>s.lastIndexOf(pat)\<close>: the last index at which \<open>pat\<close> occurs in \<open>s\<close>, and \<open>-1\<close> when
  it does not occur.
\<close>

fun lastIndexOf :: "string \<Rightarrow> string \<Rightarrow> int" where
  "lastIndexOf [] pat = (if pat = [] then 0 else - 1)"
| "lastIndexOf (x # xs) pat =
     (let i = lastIndexOf xs pat
      in if i \<noteq> - 1 then i + 1 else if prefix pat (x # xs) then 0 else - 1)"

text \<open>
  The regular expressions of \<^verbatim>\<open>hasMouseSequence\<close>, \<^verbatim>\<open>consumeMouseScroll\<close> and
  \<^verbatim>\<open>stripInputArtifacts\<close> are sequences of three kinds of pieces: a literal string, a
  character class with a greedy quantifier (\<open>Rep c lo hi\<close>: at least \<open>lo\<close> and, when \<open>hi\<close>
  is \<open>Some h\<close>, at most \<open>h\<close> characters of class \<open>c\<close>), and an alternation of literal
  strings. Strings are sequences of code units; a code unit is a \<^typ>\<open>char\<close> here, which
  covers the code units up to \<open>0xFF\<close>. No expression has the \<^verbatim>\<open>u\<close>, \<^verbatim>\<open>i\<close>,
  \<^verbatim>\<open>m\<close> or \<^verbatim>\<open>s\<close> flag, and a character class, negated or not, matches line breaks
  too.
\<close>

datatype piece =
    Lit string
  | Rep "char \<Rightarrow> bool" nat "nat option"
  | Alt "string list"

text \<open>
  \<open>matchAt ps s\<close> is the match of the expression at the start of \<open>s\<close>, as the
  backtracking matcher of JavaScript finds it: \<open>Some n\<close> when it matches the first \<open>n\<close>
  characters, \<open>None\<close> when it does not match there. A quantified class first takes a
  character when it can and gives it back only when the rest of the expression fails; an
  alternation tries its alternatives from left to right.
\<close>

function matchAt :: "piece list \<Rightarrow> string \<Rightarrow> nat option" where
  "matchAt [] s = Some 0"
| "matchAt (Lit l # ps) s =
     (if prefix l s then map_option (\<lambda>n. length l + n) (matchAt ps (drop (length l) s)) else None)"
| "matchAt (Alt [] # ps) s = None"
| "matchAt (Alt (l # ls) # ps) s =
     (case (if prefix l s then matchAt ps (drop (length l) s) else None) of
        Some n \<Rightarrow> Some (length l + n)
      | None \<Rightarrow> matchAt (Alt ls # ps) s)"
| "matchAt (Rep c lo hi # ps) [] = (if lo = 0 then matchAt ps [] else None)"
| "matchAt (Rep c lo hi # ps) (x # xs) =
     (case (if c x \<and> hi \<noteq> Some 0
            then matchAt (Rep c (lo - 1) (map_option (\<lambda>h. h - 1) hi) # ps) xs else None) of
        Some n \<Rightarrow> Some (Suc n)
      | None \<Rightarrow> if lo = 0 then matchAt ps (x # xs) else None)"
  by pat_completeness auto
termination
  by (relation "(\<lambda>(ps, s). length s) <*mlex*>
                measure (\<lambda>(ps, s). sum_list (map (\<lambda>p. case p of Alt ls \<Rightarrow> Suc (length ls) | _ \<Rightarrow> 1) ps))")
     (auto simp: wf_mlex mlex_less mlex_leq)

text \<open>
  \<^verbatim>\<open>s.replace(/.../g, rep)\<close> with a replacement that has no \<^verbatim>\<open>$\<close>: the matches are
  found from left to right, each search starting where the previous match ended (one
  character further after an empty match), and every match is replaced by \<open>rep\<close>.
\<close>

fun replaceAll :: "piece list \<Rightarrow> string \<Rightarrow> string \<Rightarrow> string" where
  "replaceAll ps rep [] = (case matchAt ps [] of Some n \<Rightarrow> rep | None \<Rightarrow> [])"
| "replaceAll ps rep (x # xs) =
     (case matchAt ps (x # xs) of
        None \<Rightarrow> x # replaceAll ps rep xs
      | Some 0 \<Rightarrow> rep @ x # replaceAll ps rep xs
      | Some (Suc n) \<Rightarrow> rep @ replaceAll ps rep (drop n xs))"

text \<open>The leftmost match in \<open>s\<close>: its index and its length.\<close>

fun search :: "piece list \<Rightarrow> string \<Rightarrow> (nat \<times> nat) option" where
  "search ps [] = map_option (\<lambda>n. (0, n)) (matchAt ps [])"
| "search ps (x # xs) =
     (case matchAt ps (x # xs) of
        Some n \<Rightarrow> Some (0, n)
      | None \<Rightarrow> map_option (\<lambda>(i, n). (Suc i, n)) (search ps xs))"

text \<open>
  \<^verbatim>\<open>pattern.exec(s)\<close> of an expression with the \<^verbatim>\<open>g\<close> flag whose \<^verbatim>\<open>lastIndex\<close> is
  \<open>lastIndex\<close>: the leftmost match that starts at or after \<open>lastIndex\<close>, as its index in
  \<open>s\<close> and its length. \<^verbatim>\<open>/.../.test(s)\<close> of an expression without the flag says
  whether there is a match at all.
\<close>

definition exec :: "piece list \<Rightarrow> string \<Rightarrow> nat \<Rightarrow> (nat \<times> nat) option" where
  "exec ps s lastIndex =
     (if lastIndex > length s then None
      else map_option (\<lambda>(i, n). (lastIndex + i, n)) (search ps (drop lastIndex s)))"

definition test :: "piece list \<Rightarrow> string \<Rightarrow> bool" where
  "test ps s = (search ps s \<noteq> None)"

text \<open>The quantifiers: none, \<^verbatim>\<open>?\<close>, \<^verbatim>\<open>*\<close>, \<^verbatim>\<open>+\<close> and \<^verbatim>\<open>{k}\<close>.\<close>

definition rxOne :: "(char \<Rightarrow> bool) \<Rightarrow> piece" where "rxOne c = Rep c 1 (Some 1)"
definition rxOpt :: "(char \<Rightarrow> bool) \<Rightarrow> piece" where "rxOpt c = Rep c 0 (Some 1)"
definition rxStar :: "(char \<Rightarrow> bool) \<Rightarrow> piece" where "rxStar c = Rep c 0 None"
definition rxPlus :: "(char \<Rightarrow> bool) \<Rightarrow> piece" where "rxPlus c = Rep c 1 None"
definition rxTimes :: "nat \<Rightarrow> (char \<Rightarrow> bool) \<Rightarrow> piece" where "rxTimes k c = Rep c k (Some k)"

text \<open>
  The character classes: a range of code units, \<^verbatim>\<open>\d\<close>, \<^verbatim>\<open>[\s\S]\<close> and
  \<^verbatim>\<open>[\x00-\x08\x0b\x0c\x0e-\x1f\x7f]\<close>; and the characters written as escapes.
\<close>

definition inRange :: "nat \<Rightarrow> nat \<Rightarrow> char \<Rightarrow> bool" where
  "inRange lo hi c = (lo \<le> of_char c \<and> (of_char c :: nat) \<le> hi)"

definition digit :: "char \<Rightarrow> bool" where "digit = inRange 0x30 0x39"
definition anyChar :: "char \<Rightarrow> bool" where "anyChar c = True"
definition control :: "char \<Rightarrow> bool" where
  "control c = (inRange 0x00 0x08 c \<or> c = CHR 0x0B \<or> c = CHR 0x0C \<or> inRange 0x0E 0x1F c
                \<or> c = CHR 0x7F)"

definition ESC :: char where "ESC = CHR 0x1B"
definition BEL :: char where "BEL = CHR 0x07"
definition CR :: char where "CR = CHR 0x0D"
definition LF :: char where "LF = CHR 0x0A"

text \<open>\<^verbatim>\<open>/\x1b\[<\d+;\d+;\d+[mM]/\<close>\<close>

definition sgrMouse :: "piece list" where
  "sgrMouse = [Lit (ESC # ''[<''), rxPlus digit, Lit '';'', rxPlus digit, Lit '';'', rxPlus digit,
               rxOne (\<lambda>c. c \<in> set ''mM'')]"

text \<open>\<^verbatim>\<open>/\x1b\[\d+;\d+;\d+M/\<close>\<close>

definition urxvtMouse :: "piece list" where
  "urxvtMouse = [Lit (ESC # ''[''), rxPlus digit, Lit '';'', rxPlus digit, Lit '';'', rxPlus digit,
                 Lit ''M'']"

text \<open>\<^verbatim>\<open>/\[<?\d+;\d+;\d+[mM]/\<close>\<close>

definition partialMouse :: "piece list" where
  "partialMouse = [Lit ''['', rxOpt (\<lambda>c. c = CHR ''<''), rxPlus digit, Lit '';'', rxPlus digit,
                   Lit '';'', rxPlus digit, rxOne (\<lambda>c. c \<in> set ''mM'')]"

text \<open>\<^verbatim>\<open>/\x1b\[M[\s\S]{3}/\<close> and \<^verbatim>\<open>/\[M[\s\S]{3}/\<close>\<close>

definition x10Mouse :: "piece list" where
  "x10Mouse = [Lit (ESC # ''[M''), rxTimes 3 anyChar]"

definition x10Partial :: "piece list" where
  "x10Partial = [Lit ''[M'', rxTimes 3 anyChar]"

text \<open>\<^verbatim>\<open>/\x1b\[[0-9;?]*[ -/]*[@-~]/\<close>\<close>

definition csiSeq :: "piece list" where
  "csiSeq = [Lit (ESC # ''[''), rxStar (\<lambda>c. digit c \<or> c \<in> set '';?''), rxStar (inRange 0x20 0x2F),
             rxOne (inRange 0x40 0x7E)]"

text \<open>\<^verbatim>\<open>/\x1b\][^\x07]*(\x07|\x1b\\)/\<close>\<close>

definition oscSeq :: "piece list" where
  "oscSeq = [Lit (ESC # '']''), rxStar (\<lambda>c. c \<noteq> BEL), Alt [[BEL], [ESC, CHR 0x5C]]]"

text \<open>\<^verbatim>\<open>/\x1b/\<close> and \<^verbatim>\<open>/[\x00-\x08\x0b\x0c\x0e-\x1f\x7f]/\<close>\<close>

definition strayEsc :: "piece list" where
  "strayEsc = [Lit [ESC]]"

definition controlChar :: "piece list" where
  "controlChar = [rxOne control]"

text \<open>
  \<^verbatim>\<open>function hasMouseSequence(value: string): boolean\<close>: the five tests, in the order of
  the source.
\<close>

definition hasMouseSequence :: "string \<Rightarrow> bool" where
  "hasMouseSequence value =
     (test sgrMouse value \<or> test urxvtMouse value \<or> test x10Mouse value
      \<or> test partialMouse value \<or> test x10Partial value)"

subsection \<open>Input scrubber\<close>

text \<open>
  \<^verbatim>\<open>function stripInputArtifacts(value: string): string\<close>: the eleven replacements in
  the order of the source. The first line replaces \<^verbatim>\<open>\r\n\<close> and then \<^verbatim>\<open>\r\<close> by
  \<^verbatim>\<open>\n\<close>; every other replacement deletes its matches.
\<close>

definition stripInputArtifacts :: "string \<Rightarrow> string" where
  "stripInputArtifacts value =
     (let cleaned = value;
          cleaned = replaceAll [Lit [CR]] [LF] (replaceAll [Lit [CR, LF]] [LF] cleaned);
          cleaned = replaceAll sgrMouse [] cleaned;
          cleaned = replaceAll urxvtMouse [] cleaned;
          cleaned = replaceAll partialMouse [] cleaned;
          cleaned = replaceAll x10Mouse [] cleaned;
          cleaned = replaceAll x10Partial [] cleaned;
          cleaned = replaceAll csiSeq [] cleaned;
          cleaned = replaceAll oscSeq [] cleaned;
          cleaned = replaceAll strayEsc [] cleaned;
          cleaned = replaceAll controlChar [] cleaned
      in cleaned)"

subsection \<open>Mouse-scroll decoder\<close>

text \<open>\<^verbatim>\<open>const sgrPattern = /\x1b\[<(64|65|96|97);(\d+);(\d+)[mM]/g\<close>\<close>

definition sgrPattern :: "piece list" where
  "sgrPattern = [Lit (ESC # ''[<''), Alt [''64'', ''65'', ''96'', ''97''], Lit '';'', rxPlus digit,
                 Lit '';'', rxPlus digit, rxOne (\<lambda>c. c \<in> set ''mM'')]"

text \<open>
  Three facts about matches, needed for the termination of the decoder's loop: a match
  lies inside the string, \<open>search\<close> returns the leftmost match, and a match of
  \<open>sgrPattern\<close> moves \<^verbatim>\<open>lastIndex\<close> forward.
\<close>

lemma matchAt_le: "matchAt ps s = Some n \<Longrightarrow> n \<le> length s"
proof (induction ps s arbitrary: n rule: matchAt.induct)
  case (1 s)
  then show ?case by simp
next
  case (2 l ps s)
  then show ?case by (auto split: if_splits simp: prefix_def)
next
  case (3 ps s)
  then show ?case by simp
next
  case (4 l ls ps s)
  then show ?case by (auto split: if_splits option.splits simp: prefix_def)
next
  case (5 c lo hi ps)
  then show ?case by (auto split: if_splits)
next
  case (6 c lo hi ps x xs)
  then show ?case by (auto split: if_splits option.splits)
qed

lemma search_Some:
  "search ps s = Some (i, n) \<Longrightarrow>
     i \<le> length s \<and> matchAt ps (drop i s) = Some n \<and> (\<forall>j<i. matchAt ps (drop j s) = None)"
proof (induction s arbitrary: i)
  case Nil
  then show ?case by auto
next
  case (Cons x xs)
  show ?case
  proof (cases "matchAt ps (x # xs)")
    case None
    with Cons.prems obtain i' where i: "i = Suc i'" and s: "search ps xs = Some (i', n)"
      by auto
    from Cons.IH[OF s] have ih: "i' \<le> length xs" "matchAt ps (drop i' xs) = Some n"
      "\<forall>j<i'. matchAt ps (drop j xs) = None" by auto
    have "\<forall>j<Suc i'. matchAt ps (drop j (x # xs)) = None"
    proof (intro allI impI)
      fix j assume "j < Suc i'"
      then show "matchAt ps (drop j (x # xs)) = None" using None ih(3) by (cases j) auto
    qed
    then show ?thesis using i ih by simp
  next
    case (Some m)
    with Cons.prems show ?thesis by auto
  qed
qed

lemma exec_sgrPattern_progress:
  assumes "exec sgrPattern buffer lastIndex = Some (i, n)"
  shows "lastIndex < i + n \<and> i + n \<le> length buffer"
proof -
  from assms obtain k where le: "lastIndex \<le> length buffer" and i: "i = lastIndex + k"
    and s: "search sgrPattern (drop lastIndex buffer) = Some (k, n)"
    by (auto simp: exec_def split: if_splits)
  from search_Some[OF s] have k: "k \<le> length buffer - lastIndex"
    and m: "matchAt sgrPattern (drop (lastIndex + k) buffer) = Some n"
    by (simp_all add: add.commute)
  from m have "3 \<le> n" by (auto simp: sgrPattern_def split: if_splits)
  moreover from matchAt_le[OF m] have "n \<le> length buffer - (lastIndex + k)" by simp
  ultimately show ?thesis using i k le by linarith
qed

text \<open>
  The loop of \<^verbatim>\<open>consumeMouseScroll\<close>:
  \<^verbatim>\<open>
  let match = sgrPattern.exec(buffer);
  while (match) {
    delta += match[1] === "64" || match[1] === "96" ? 1 : -1;
    lastIndex = sgrPattern.lastIndex;
    match = sgrPattern.exec(buffer);
  }
  \<close>
  It returns \<^verbatim>\<open>delta\<close> and \<^verbatim>\<open>lastIndex\<close>. Whenever \<^verbatim>\<open>exec\<close> is called,
  \<^verbatim>\<open>sgrPattern.lastIndex\<close> equals the local \<^verbatim>\<open>lastIndex\<close> (both are \<open>0\<close> at first and
  the end of the last match afterwards), so one argument stands for both. The first group
  \<^verbatim>\<open>match[1]\<close> is the two characters after the three of \<^verbatim>\<open>ESC [ <\<close>.
\<close>

function wheelLoop :: "string \<Rightarrow> nat \<Rightarrow> int \<Rightarrow> int \<times> nat" where
  "wheelLoop buffer lastIndex delta =
     (case exec sgrPattern buffer lastIndex of
        None \<Rightarrow> (delta, lastIndex)
      | Some (i, n) \<Rightarrow>
          wheelLoop buffer (i + n)
            (delta + (if take 2 (drop (i + 3) buffer) = ''64'' \<or> take 2 (drop (i + 3) buffer) = ''96''
                      then 1 else - 1)))"
  by pat_completeness auto
termination
proof (relation "measure (\<lambda>(buffer, lastIndex, delta). length buffer - lastIndex)")
  show "wf (measure (\<lambda>(buffer, lastIndex, delta). length buffer - lastIndex))" by simp
next
  fix buffer :: string and lastIndex :: nat and delta :: int and x2 :: "nat \<times> nat" and i n :: nat
  assume "exec sgrPattern buffer lastIndex = Some x2" and "(i, n) = x2"
  then have "exec sgrPattern buffer lastIndex = Some (i, n)" by simp
  from exec_sgrPattern_progress[OF this]
  show "((buffer, i + n,
          delta + (if take 2 (drop (i + 3) buffer) = ''64'' \<or> take 2 (drop (i + 3) buffer) = ''96''
                   then 1 else - 1)),
         (buffer, lastIndex, delta))
        \<in> measure (\<lambda>(buffer, lastIndex, delta). length buffer - lastIndex)"
    by simp linarith
qed

declare wheelLoop.simps [simp del]

text \<open>\<^verbatim>\<open>{ remaining: string; delta: number }\<close>\<close>

record ScrollParseResult =
  remaining :: string
  delta :: int

text \<open>
  \<^verbatim>\<open>function consumeMouseScroll(buffer: string): { remaining: string; delta: number }\<close>;
  after the loop:
  \<^verbatim>\<open>
  let remaining = buffer;
  if (lastIndex > 0) remaining = buffer.slice(lastIndex);
  const lastEsc = remaining.lastIndexOf("\x1b[<");
  if (lastEsc > 0) remaining = remaining.slice(lastEsc);
  return { remaining, delta };
  \<close>
\<close>

definition consumeMouseScroll :: "string \<Rightarrow> ScrollParseResult" where
  "consumeMouseScroll buffer =
     (let (delta, lastIndex) = wheelLoop buffer 0 0;
          remaining = buffer;
          remaining = (if lastIndex > 0 then drop lastIndex buffer else remaining);
          lastEsc = lastIndexOf remaining (ESC # ''[<'');
          remaining = (if lastEsc > 0 then drop (nat lastEsc) remaining else remaining)
      in \<lparr>remaining = remaining, delta = delta\<rparr>)"

text \<open>
  The handler of terminal data, \<^verbatim>\<open>onData\<close>, run on a list of chunks:
  \<^verbatim>\<open>buffer += chunk; const scroll = consumeMouseScroll(buffer); buffer = scroll.remaining;\<close>
  The result is the buffer retained at the end and the \<^verbatim>\<open>scroll.delta\<close> of every call.
\<close>

fun decodeChunks :: "string \<Rightarrow> string list \<Rightarrow> string \<times> int list" where
  "decodeChunks buffer [] = (buffer, [])"
| "decodeChunks buffer (chunk # chunks) =
     (let scroll = consumeMouseScroll (buffer @ chunk);
          (buffer', deltas) = decodeChunks (remaining scroll) chunks
      in (buffer', delta scroll # deltas))"

text \<open>
  The decoder's delta as the specification words it, to be compared with the loop: the
  sum, over every complete SGR mouse sequence \<^verbatim>\<open>ESC [ < button ; col ; row (m|M)\<close> in the
  buffer, of \<open>+1\<close> when the button code is \<open>64\<close> or \<open>96\<close> and \<open>-1\<close> when it is \<open>65\<close> or
  \<open>97\<close>. \<open>sgrButtonAt s\<close> is the button code of the sequence that starts at the head of
  \<open>s\<close>, when one does; \<open>specDelta\<close> adds the contributions of all positions.
\<close>

definition sgrButtonAt :: "string \<Rightarrow> string option" where
  "sgrButtonAt s =
     (case matchAt sgrMouse s of None \<Rightarrow> None | Some n \<Rightarrow> Some (takeWhile digit (drop 3 s)))"

definition wheelValue :: "string \<Rightarrow> int" where
  "wheelValue button =
     (if button = ''64'' \<or> button = ''96'' then 1
      else if button = ''65'' \<or> button = ''97'' then - 1 else 0)"

definition contribution :: "string \<Rightarrow> int" where
  "contribution s = (case sgrButtonAt s of None \<Rightarrow> 0 | Some button \<Rightarrow> wheelValue button)"

fun specDelta :: "string \<Rightarrow> int" where
  "specDelta [] = 0"
| "specDelta (x # xs) = contribution (x # xs) + specDelta xs"

subsection \<open>Auxiliary notions of the proofs\<close>

text \<open>
  The two coordinates and the final letter, shared by \<open>sgrMouse\<close> and \<open>sgrPattern\<close>; and
  the characters that a piece can match.
\<close>

definition coords :: "piece list" where
  "coords = [Lit '';'', rxPlus digit, Lit '';'', rxPlus digit, rxOne (\<lambda>c. c \<in> set ''mM'')]"

fun accepts :: "piece \<Rightarrow> char \<Rightarrow> bool" where
  "accepts (Lit l) c = (c \<in> set l)"
| "accepts (Rep f lo hi) c = f c"
| "accepts (Alt ls) c = (\<exists>l \<in> set ls. c \<in> set l)"

section \<open>Properties\<close>

subsection \<open>Scroll window (C7)\<close>

text \<open>
  The offsets that the panels are given: whatever the updates, as long as each maximal
  scroll lies between \<open>0\<close> and a bound \<open>B\<close>, the offset lies between \<open>0\<close> and \<open>B\<close>.
\<close>

lemma applyScroll_range:
  assumes "0 \<le> m" "m \<le> B" "0 \<le> prev" "prev \<le> B"
  shows "0 \<le> applyScroll m u prev \<and> applyScroll m u prev \<le> B"
  using assms by (cases u) auto

lemma foldl_applyScroll_range:
  assumes "\<forall>(m, u) \<in> set updates. 0 \<le> m \<and> m \<le> B" "0 \<le> prev" "prev \<le> B"
  shows "0 \<le> foldl (\<lambda>prev (m, u). applyScroll m u prev) prev updates
       \<and> foldl (\<lambda>prev (m, u). applyScroll m u prev) prev updates \<le> B"
  using assms
proof (induction updates arbitrary: prev)
  case Nil
  then show ?case by simp
next
  case (Cons a updates)
  obtain m u where a: "a = (m, u)" by (cases a)
  have m: "0 \<le> m" "m \<le> B" using Cons.prems(1) a by auto
  have step: "0 \<le> applyScroll m u prev \<and> applyScroll m u prev \<le> B"
    using applyScroll_range[OF m Cons.prems(2,3)] .
  have rest: "\<forall>(m, u) \<in> set updates. 0 \<le> m \<and> m \<le> B" using Cons.prems(1) by simp
  show ?case using Cons.IH[OF rest, of "applyScroll m u prev"] step a by simp
qed

lemma scrollOffsetAfter_range:
  assumes "\<forall>(m, u) \<in> set updates. 0 \<le> m \<and> m \<le> B" "0 \<le> B"
  shows "0 \<le> scrollOffsetAfter updates \<and> scrollOffsetAfter updates \<le> B"
  unfolding scrollOffsetAfter_def
  using foldl_applyScroll_range[OF assms(1), of 0] assms(2) by simp

text \<open>
  On integers between \<open>0\<close> and \<open>MAX_SAFE_INTEGER\<close> the result of every operation of the
  window computation is an integer of absolute value at most \<open>MAX_SAFE_INTEGER\<close>: the
  program's double arithmetic is exact there.
\<close>

lemma scrollWindow_intermediates_exact:
  assumes "0 \<le> totalLines" "totalLines \<le> MAX_SAFE_INTEGER"
    and "0 \<le> messagesHeight" "messagesHeight \<le> MAX_SAFE_INTEGER"
    and "0 \<le> scrollOffset" "scrollOffset \<le> MAX_SAFE_INTEGER"
  shows "\<bar>totalLines - messagesHeight\<bar> \<le> MAX_SAFE_INTEGER
       \<and> \<bar>maxScroll (scrollWindow totalLines messagesHeight scrollOffset)\<bar> \<le> MAX_SAFE_INTEGER
       \<and> \<bar>effectiveOffset (scrollWindow totalLines messagesHeight scrollOffset)\<bar>
            \<le> MAX_SAFE_INTEGER
       \<and> \<bar>totalLines - messagesHeight
            - effectiveOffset (scrollWindow totalLines messagesHeight scrollOffset)\<bar>
            \<le> MAX_SAFE_INTEGER
       \<and> \<bar>startIdx (scrollWindow totalLines messagesHeight scrollOffset)\<bar> \<le> MAX_SAFE_INTEGER
       \<and> \<bar>startIdx (scrollWindow totalLines messagesHeight scrollOffset) + messagesHeight\<bar>
            \<le> MAX_SAFE_INTEGER
       \<and> \<bar>endIdx (scrollWindow totalLines messagesHeight scrollOffset)\<bar> \<le> MAX_SAFE_INTEGER"
  using assms by (auto simp add: scrollWindow_def Let_def)



subsection \<open>Message update (C9)\<close>

text \<open>
  C9: \<open>updateMessage(id, content)\<close> keeps the length and the order of the message list;
  a message with another id is unchanged, and a message with the given id keeps its id,
  role and timestamp and has the new content.
\<close>

theorem updateMessage_frame:
  "length (updateMessage i c ms) = length ms
   \<and> (\<forall>k < length ms.
        (msgId (ms ! k) \<noteq> i \<longrightarrow> updateMessage i c ms ! k = ms ! k)
      \<and> (msgId (ms ! k) = i \<longrightarrow>
           msgId (updateMessage i c ms ! k) = msgId (ms ! k)
         \<and> role (updateMessage i c ms ! k) = role (ms ! k)
         \<and> timestamp (updateMessage i c ms ! k) = timestamp (ms ! k)
         \<and> content (updateMessage i c ms ! k) = c
         \<and> updateMessage i c ms ! k = (ms ! k)\<lparr>content := c\<rparr>))"
  by (simp add: updateMessage_def)

theorem updateMessage_frame_witness:
  "length (updateMessage ''b'' ''new''
     [\<lparr>msgId = ''a'', role = User, content = ''hi'', timestamp = 1\<rparr>,
      \<lparr>msgId = ''b'', role = Assistant, content = ''old'', timestamp = 2\<rparr>]) = 2
   \<and> updateMessage ''b'' ''new''
     [\<lparr>msgId = ''a'', role = User, content = ''hi'', timestamp = 1\<rparr>,
      \<lparr>msgId = ''b'', role = Assistant, content = ''old'', timestamp = 2\<rparr>] ! 0
     = \<lparr>msgId = ''a'', role = User, content = ''hi'', timestamp = 1\<rparr>
   \<and> updateMessage ''b'' ''new''
     [\<lparr>msgId = ''a'', role = User, content = ''hi'', timestamp = 1\<rparr>,
      \<lparr>msgId = ''b'', role = Assistant, content = ''old'', timestamp = 2\<rparr>] ! 1
     = \<lparr>msgId = ''b'', role = Assistant, content = ''new'', timestamp = 2\<rparr>"
proof -
  let ?ms = "[\<lparr>msgId = ''a'', role = User, content = ''hi'', timestamp = 1\<rparr>,
              \<lparr>msgId = ''b'', role = Assistant, content = ''old'', timestamp = 2\<rparr>]"
  note f = updateMessage_frame [of "''b''" "''new''" ?ms]
  have len: "length (updateMessage ''b'' ''new'' ?ms) = 2"
    using f by simp
  have k0: "updateMessage ''b'' ''new'' ?ms ! 0 = ?ms ! 0"
    using f [THEN conjunct2, rule_format, of 0] by simp
  have k1: "updateMessage ''b'' ''new'' ?ms ! 1 = (?ms ! 1)\<lparr>content := ''new''\<rparr>"
    using f [THEN conjunct2, rule_format, of 1] by simp
  show ?thesis using len k0 k1 by simp
qed

subsection \<open>Line wrapper (C6, C10)\<close>

lemma hardSplit_bound:
  "0 < w \<Longrightarrow> (\<forall>l \<in> set (fst (hardSplit w r)). int (length l) \<le> w)
     \<and> int (length (snd (hardSplit w r))) \<le> w"
proof (induction w r rule: hardSplit.induct)
  case (1 maxWidth remaining)
  show ?case
  proof (cases "int (length remaining) > maxWidth")
    case True
    with 1 show ?thesis
      by (subst (1 2) hardSplit.simps) (auto simp: split_beta Let_def)
  next
    case False
    then show ?thesis by (subst (1 2) hardSplit.simps) auto
  qed
qed

lemma wordStep_bound:
  assumes "0 < w" "\<forall>l \<in> set (fst st). int (length l) \<le> w" "int (length (snd st)) \<le> w"
  shows "(\<forall>l \<in> set (fst (wordStep w st word)). int (length l) \<le> w)
     \<and> int (length (snd (wordStep w st word))) \<le> w"
  using assms hardSplit_bound[of w word]
  by (cases st) (auto simp: wordStep_def Let_def split_beta)

lemma foldl_wordStep_bound:
  assumes "0 < w" "\<forall>l \<in> set (fst st). int (length l) \<le> w" "int (length (snd st)) \<le> w"
  shows "(\<forall>l \<in> set (fst (foldl (wordStep w) st ws)). int (length l) \<le> w)
     \<and> int (length (snd (foldl (wordStep w) st ws))) \<le> w"
  using assms
proof (induction ws arbitrary: st)
  case Nil
  then show ?case by simp
next
  case (Cons a ws)
  have "(\<forall>l \<in> set (fst (wordStep w st a)). int (length l) \<le> w)
      \<and> int (length (snd (wordStep w st a))) \<le> w"
    using wordStep_bound[OF Cons.prems] .
  then show ?case using Cons.IH[of "wordStep w st a"] Cons.prems(1) by simp
qed

lemma paragraphStep_bound:
  assumes "0 < w" "\<forall>l \<in> set ls. int (length l) \<le> w"
  shows "\<forall>l \<in> set (paragraphStep w ls p). int (length l) \<le> w"
  using assms foldl_wordStep_bound[of w "(ls, [])" "splitOn CHR '' '' p"]
  by (auto simp: paragraphStep_def Let_def split_beta)

lemma foldl_paragraphStep_bound:
  assumes "0 < w" "\<forall>l \<in> set ls. int (length l) \<le> w"
  shows "\<forall>l \<in> set (foldl (paragraphStep w) ls ps). int (length l) \<le> w"
  using assms
proof (induction ps arbitrary: ls)
  case Nil
  then show ?case by simp
next
  case (Cons p ps)
  show ?case using Cons.IH[OF Cons.prems(1) paragraphStep_bound[OF Cons.prems]] by simp
qed

lemma wrapText_abc: "wrapText ''a b c'' 3 = [''a b'', ''c'']"
  by (simp add: wrapText_def paragraphStep_def wordStep_def)

lemma wrapText_long_word:
  "wrapText ''supercalifragilistic'' 5 = [''super'', ''calif'', ''ragil'', ''istic'']"
  by (simp add: wrapText_def paragraphStep_def wordStep_def hardSplit.simps)

text \<open>
  C6: the result of \<open>wrapText\<close> is never the empty list; the empty text gives \<open>[""]\<close> at
  every width \<open>N > 0\<close>; a width \<open>\<le> 0\<close> gives \<open>[text]\<close>; \<open>wrap("a b c", 3)\<close> is
  \<open>["a b", "c"]\<close>; and \<open>wrap("supercalifragilistic", 5)\<close> consists of fragments of 5
  characters, the last one of at most 5, whose concatenation is the word.
\<close>

theorem wrapText_contract:
  "wrapText input maxWidth \<noteq> []
   \<and> (0 < N \<longrightarrow> wrapText [] N = [[]])
   \<and> (maxWidth \<le> 0 \<longrightarrow> wrapText input maxWidth = [input])
   \<and> wrapText ''a b c'' 3 = [''a b'', ''c'']
   \<and> (\<forall>fragment \<in> set (butlast (wrapText ''supercalifragilistic'' 5)). length fragment = 5)
   \<and> length (last (wrapText ''supercalifragilistic'' 5)) \<le> 5
   \<and> concat (wrapText ''supercalifragilistic'' 5) = ''supercalifragilistic''"
proof -
  have "wrapText input maxWidth \<noteq> []"
    by (simp add: wrapText_def Let_def)
  moreover have "0 < N \<longrightarrow> wrapText [] N = [[]]"
    by (simp add: wrapText_def paragraphStep_def)
  moreover have "maxWidth \<le> 0 \<longrightarrow> wrapText input maxWidth = [input]"
    by (simp add: wrapText_def)
  ultimately show ?thesis
    by (simp add: wrapText_abc wrapText_long_word)
qed

theorem wrapText_contract_witness:
  "wrapText ''a b c'' 0 = [''a b c''] \<and> wrapText [] 3 = [[]] \<and> wrapText ''a b c'' 0 \<noteq> []"
  using wrapText_contract [of "''a b c''" 0 3] by simp

text \<open>
  C10: for every text and every width \<open>maxWidth \<ge> 1\<close>, each line that \<open>wrapText\<close>
  returns has at most \<open>maxWidth\<close> characters.
\<close>

theorem wrapText_width:
  assumes "1 \<le> maxWidth"
  shows "\<forall>line \<in> set (wrapText input maxWidth). int (length line) \<le> maxWidth"
  using assms foldl_paragraphStep_bound[of maxWidth "[]" "splitOn CHR 0x0A input"]
  by (auto simp: wrapText_def Let_def)

theorem wrapText_width_witness:
  "(1::int) \<le> 5
   \<and> wrapText ''supercalifragilistic is a b c'' 5
       = [''super'', ''calif'', ''ragil'', ''istic'', ''is a'', ''b c'']
   \<and> list_all (\<lambda>line. int (length line) \<le> 5) (wrapText ''supercalifragilistic is a b c'' 5)"
proof -
  have "wrapText ''supercalifragilistic is a b c'' 5
       = [''super'', ''calif'', ''ragil'', ''istic'', ''is a'', ''b c'']"
    by (simp add: wrapText_def paragraphStep_def wordStep_def hardSplit.simps)
  moreover have "list_all (\<lambda>line. int (length line) \<le> 5)
      (wrapText ''supercalifragilistic is a b c'' 5)"
    using wrapText_width [of 5 "''supercalifragilistic is a b c''"]
    by (simp add: list_all_iff)
  ultimately show ?thesis by simp
qed

subsection \<open>First occurrences\<close>

lemma indexOf_ge: "- 1 \<le> indexOf s p"
  by (induction s) (auto simp: Let_def)

lemma indexOf_none: "indexOf s p = - 1 \<longleftrightarrow> (\<forall>k. \<not> prefix p (drop k s))"
proof (induction s)
  case Nil
  then show ?case by auto
next
  case (Cons x xs)
  show ?case
  proof (cases "prefix p (x # xs)")
    case True
    then have "prefix p (drop 0 (x # xs))" by simp
    then show ?thesis using True by (auto intro: exI[of _ 0])
  next
    case False
    have ge: "- 1 \<le> indexOf xs p" by (rule indexOf_ge)
    have "(\<forall>k. \<not> prefix p (drop k (x # xs))) \<longleftrightarrow> (\<forall>k. \<not> prefix p (drop k xs))"
    proof
      assume a: "\<forall>k. \<not> prefix p (drop k (x # xs))"
      show "\<forall>k. \<not> prefix p (drop k xs)"
      proof
        fix k from a have "\<not> prefix p (drop (Suc k) (x # xs))" by blast
        then show "\<not> prefix p (drop k xs)" by simp
      qed
    next
      assume a: "\<forall>k. \<not> prefix p (drop k xs)"
      show "\<forall>k. \<not> prefix p (drop k (x # xs))"
      proof
        fix k show "\<not> prefix p (drop k (x # xs))"
          using a False by (cases k) auto
      qed
    qed
    then show ?thesis using False Cons ge by (auto simp: Let_def)
  qed
qed

lemma indexOf_first:
  "indexOf s p = int k \<longleftrightarrow> prefix p (drop k s) \<and> (\<forall>j<k. \<not> prefix p (drop j s))"
proof (induction s arbitrary: k)
  case Nil
  then show ?case by (cases k) auto
next
  case (Cons x xs)
  show ?case
  proof (cases "prefix p (x # xs)")
    case True
    then show ?thesis by (cases k) auto
  next
    case False
    note nf = False
    show ?thesis
    proof (cases k)
      case 0
      have "- 1 \<le> indexOf xs p" by (rule indexOf_ge)
      then show ?thesis using 0 nf by (auto simp: Let_def)
    next
      case (Suc k')
      have "(\<forall>j<Suc k'. \<not> prefix p (drop j (x # xs))) \<longleftrightarrow> (\<forall>j<k'. \<not> prefix p (drop j xs))"
      proof
        assume a: "\<forall>j<Suc k'. \<not> prefix p (drop j (x # xs))"
        show "\<forall>j<k'. \<not> prefix p (drop j xs)"
        proof (intro allI impI)
          fix j assume "j < k'"
          then have "\<not> prefix p (drop (Suc j) (x # xs))" using a by (meson Suc_less_eq)
          then show "\<not> prefix p (drop j xs)" by simp
        qed
      next
        assume a: "\<forall>j<k'. \<not> prefix p (drop j xs)"
        show "\<forall>j<Suc k'. \<not> prefix p (drop j (x # xs))"
        proof (intro allI impI)
          fix j assume "j < Suc k'"
          then show "\<not> prefix p (drop j (x # xs))" using a nf by (cases j) auto
        qed
      qed
      moreover have "indexOf (x # xs) p = int (Suc k') \<longleftrightarrow> indexOf xs p = int k'"
        using nf by (auto simp: Let_def)
      ultimately show ?thesis using Suc Cons[of k'] by simp
    qed
  qed
qed

lemma occ_extend:
  assumes "prefix x y" "prefix p (drop k x)"
  shows "prefix p (drop k y)"
proof -
  from assms(1) obtain z where y: "y = x @ z" by (auto simp: prefix_def)
  have "prefix p (drop k x @ drop (k - length x) z)"
    using assms(2) by (rule prefix_prefix)
  then show ?thesis by (simp add: y)
qed

lemma occ_restrict:
  assumes "prefix x y" "prefix p (drop k y)" "k + length p \<le> length x"
  shows "prefix p (drop k x)"
proof -
  from assms(1) obtain z where y: "y = x @ z" by (auto simp: prefix_def)
  have "prefix p (drop k x @ z)" using assms(2,3) by (simp add: y)
  then consider "prefix p (drop k x)" | us where "p = drop k x @ us"
    by (auto simp: prefix_append)
  then show ?thesis
  proof cases
    case 1 then show ?thesis .
  next
    case 2
    then have "length p = length x - k + length us" by (metis length_append length_drop)
    with assms(3) have "length us = 0" by linarith
    then have "us = []" by simp
    with 2 show ?thesis by simp
  qed
qed

lemma occ_length: "prefix p (drop k s) \<Longrightarrow> p \<noteq> [] \<Longrightarrow> k + length p \<le> length s"
  by (metis add_diff_cancel_left' drop_all le_add1 le_diff_iff length_drop
    nat_le_linear prefix_bot.extremum_unique prefix_length_le)


subsection \<open>Streaming tag tracker (C4, C5)\<close>

lemma extract_done: "done st \<Longrightarrow> extractTagFromBuffer buf tag st = (buf, st)"
  by (simp add: extractTagFromBuffer_def)

lemma extract_waiting_none:
  "\<not> done st \<Longrightarrow> \<not> opened st \<Longrightarrow> indexOf buf (''<'' @ tag @ ''>'') = - 1
   \<Longrightarrow> extractTagFromBuffer buf tag st = (buf, st)"
  by (simp add: extractTagFromBuffer_def)

lemma extract_waiting_found:
  "\<not> done st \<Longrightarrow> \<not> opened st \<Longrightarrow> indexOf buf (''<'' @ tag @ ''>'') = int k
   \<Longrightarrow> extractTagFromBuffer buf tag st
       = extractTagFromBuffer (drop (k + length (''<'' @ tag @ ''>'')) buf) tag (st\<lparr>opened := True\<rparr>)"
  by (simp add: extractTagFromBuffer_def Let_def)

lemma extract_acc_found:
  "\<not> done st \<Longrightarrow> opened st \<Longrightarrow> indexOf buf (''</'' @ tag @ ''>'') = int q
   \<Longrightarrow> extractTagFromBuffer buf tag st
       = (drop (q + length (''</'' @ tag @ ''>'')) buf,
          st\<lparr>text := text st @ take q buf, done := True\<rparr>)"
  by (simp add: extractTagFromBuffer_def Let_def)

lemma extract_acc_none:
  "\<not> done st \<Longrightarrow> opened st \<Longrightarrow> indexOf buf (''</'' @ tag @ ''>'') = - 1
   \<Longrightarrow> extractTagFromBuffer buf tag st
       = (if length buf > length (''</'' @ tag @ ''>'')
          then (drop (length buf - length (''</'' @ tag @ ''>'')) buf,
                st\<lparr>text := text st @ take (length buf - length (''</'' @ tag @ ''>'')) buf\<rparr>)
          else (buf, st))"
  by (simp add: extractTagFromBuffer_def Let_def)

lemma close_phase:
  fixes tag :: string
  defines "C \<equiv> ''</'' @ tag @ ''>''"
  assumes nd: "\<not> done st" and op: "opened st"
    and first: "indexOf R C = int n"
    and pre: "prefix (text st @ buf) R"
    and len: "length (text st) \<le> n"
  shows "(n + length C \<le> length (text st @ buf) \<longrightarrow>
            done (snd (extractTagFromBuffer buf tag st))
          \<and> text (snd (extractTagFromBuffer buf tag st)) = take n R)
       \<and> (length (text st @ buf) < n + length C \<longrightarrow>
            \<not> done (snd (extractTagFromBuffer buf tag st))
          \<and> opened (snd (extractTagFromBuffer buf tag st))
          \<and> text (snd (extractTagFromBuffer buf tag st)) @ fst (extractTagFromBuffer buf tag st)
              = text st @ buf
          \<and> length (text (snd (extractTagFromBuffer buf tag st))) \<le> n)"
proof (intro conjI impI)
  have Cne: "C \<noteq> []" by (simp add: C_def)
  from first have occR: "prefix C (drop n R)" and firstR: "\<And>j. j < n \<Longrightarrow> \<not> prefix C (drop j R)"
    by (simp_all add: indexOf_first)
  have inR: "prefix C (drop (length (text st) + j) R)" if "prefix C (drop j buf)" for j
  proof -
    have "prefix C (drop (length (text st) + j) (text st @ buf))" using that by simp
    with pre show ?thesis by (rule occ_extend)
  qed
  {
    assume big: "n + length C \<le> length (text st @ buf)"
    have "prefix C (drop n (text st @ buf))"
      using pre occR big by (rule occ_restrict)
    then have here: "prefix C (drop (n - length (text st)) buf)" using len by simp
    have "\<not> prefix C (drop j buf)" if "j < n - length (text st)" for j
    proof
      assume "prefix C (drop j buf)"
      then have "prefix C (drop (length (text st) + j) R)" by (rule inR)
      moreover have "length (text st) + j < n" using that by simp
      ultimately show False using firstR by blast
    qed
    with here have idx: "indexOf buf C = int (n - length (text st))"
      by (simp add: indexOf_first)
    have res: "extractTagFromBuffer buf tag st
       = (drop (n - length (text st) + length C) buf,
          st\<lparr>text := text st @ take (n - length (text st)) buf, done := True\<rparr>)"
      using extract_acc_found[OF nd op, of buf tag "n - length (text st)"] idx
      by (simp add: C_def)
    show "done (snd (extractTagFromBuffer buf tag st))" by (simp add: res)
    have "text st @ take (n - length (text st)) buf = take n (text st @ buf)"
      using len by simp
    also have "\<dots> = take n R"
      using pre big by (auto simp: prefix_def)
    finally show "text (snd (extractTagFromBuffer buf tag st)) = take n R" by (simp add: res)
  }
  {
    assume small: "length (text st @ buf) < n + length C"
    have "\<not> prefix C (drop j buf)" for j
    proof
      assume o: "prefix C (drop j buf)"
      then have "j + length C \<le> length buf" using Cne by (rule occ_length)
      moreover have "n \<le> length (text st) + j"
        using inR[OF o] firstR by (meson not_le)
      ultimately show False using small by simp
    qed
    then have idx: "indexOf buf C = - 1" by (simp add: indexOf_none)
    note res = extract_acc_none[OF nd op, of buf tag, unfolded C_def[symmetric], OF idx]
    show "\<not> done (snd (extractTagFromBuffer buf tag st))" using nd by (simp add: res)
    show "opened (snd (extractTagFromBuffer buf tag st))" using op by (simp add: res)
    show "text (snd (extractTagFromBuffer buf tag st)) @ fst (extractTagFromBuffer buf tag st)
              = text st @ buf" by (simp add: res)
    show "length (text (snd (extractTagFromBuffer buf tag st))) \<le> n"
      using small len by (simp add: res, arith)
  }
qed


lemma prefix_drop_both: "prefix x y \<Longrightarrow> prefix (drop a x) (drop a y)"
  by (auto simp: prefix_def)

lemma tracking_step:
  fixes tag :: string
  defines "Ot \<equiv> ''<'' @ tag @ ''>''" and "C \<equiv> ''</'' @ tag @ ''>''"
  assumes firstO: "indexOf (pre @ Ot @ inner @ C @ post) Ot = int (length pre)"
    and firstC: "indexOf (inner @ C @ post) C = int (length inner)"
    and pfx: "prefix (seen @ c) (pre @ Ot @ inner @ C @ post)"
    and inv: "tracking tag (length pre + length Ot) inner seen bs"
  shows "tracking tag (length pre + length Ot) inner (seen @ c)
           (extractTagFromBuffer (fst bs @ c) tag (snd bs))"
proof -
  define a where "a = length pre + length Ot"
  define n where "n = length inner"
  define S where "S = pre @ Ot @ inner @ C @ post"
  define R where "R = inner @ C @ post"
  have One: "Ot \<noteq> []" by (simp add: Ot_def)
  have dropS: "drop a S = R" by (simp add: a_def S_def R_def)
  have pfxR: "prefix (drop a (seen @ c)) R"
    using prefix_drop_both[OF pfx, of a] dropS by (simp add: S_def)
  have takeR: "take n R = inner" by (simp add: n_def R_def)
  have firstC': "indexOf R C = int n" using firstC by (simp add: R_def n_def)
  from firstO have occO: "prefix Ot (drop (length pre) S)"
    and firstS: "\<And>j. j < length pre \<Longrightarrow> \<not> prefix Ot (drop j S)"
    by (simp_all add: indexOf_first S_def)
  let ?bs' = "extractTagFromBuffer (fst bs @ c) tag (snd bs)"
  have closing: "tracking tag a inner (seen @ c) (extractTagFromBuffer b tag st)"
    if nd: "\<not> done st" and op: "opened st" and len: "length (text st) \<le> n"
      and eq: "text st @ b = drop a (seen @ c)" and ge: "a \<le> length (seen @ c)" for b st
  proof -
    have p: "prefix (text st @ b) R" using pfxR eq by simp
    note cp = close_phase[OF nd op, of R tag n b, unfolded C_def[symmetric], OF firstC' p len]
    have lx: "length (text st @ b) = length (seen @ c) - a" using eq by simp
    show ?thesis
    proof (cases "n + length C \<le> length (text st @ b)")
      case True
      then have "done (snd (extractTagFromBuffer b tag st))"
        and "text (snd (extractTagFromBuffer b tag st)) = inner"
        using cp takeR by simp_all
      moreover have "\<not> length (seen @ c) < a + n + length C" using True lx ge by linarith
      ultimately show ?thesis using ge
        by (simp add: tracking_def n_def C_def)
    next
      case False
      then have small: "length (text st @ b) < n + length C" by simp
      then have "\<not> done (snd (extractTagFromBuffer b tag st))"
        and "opened (snd (extractTagFromBuffer b tag st))"
        and "text (snd (extractTagFromBuffer b tag st)) @ fst (extractTagFromBuffer b tag st)
              = text st @ b"
        and "length (text (snd (extractTagFromBuffer b tag st))) \<le> n"
        using cp by simp_all
      moreover have "length (seen @ c) < a + n + length C" using small lx ge by linarith
      ultimately show ?thesis using ge eq
        by (simp add: tracking_def n_def C_def)
    qed
  qed
  consider (W) "length seen < a" | (A) "a \<le> length seen" "length seen < a + n + length C"
    | (D) "a + n + length C \<le> length seen"
    by linarith
  then have "tracking tag a inner (seen @ c) ?bs'"
  proof cases
    case W
    with inv have st: "\<not> opened (snd bs)" "\<not> done (snd bs)" "text (snd bs) = []" "fst bs = seen"
      by (simp_all add: tracking_def a_def)
    show ?thesis
    proof (cases "length (seen @ c) < a")
      case True
      have "\<not> prefix Ot (drop j (seen @ c))" for j
      proof
        assume o: "prefix Ot (drop j (seen @ c))"
        then have "j + length Ot \<le> length (seen @ c)" using One by (rule occ_length)
        with True have "j < length pre" by (simp add: a_def)
        moreover have "prefix Ot (drop j S)" using pfx o unfolding S_def by (rule occ_extend)
        ultimately show False using firstS by blast
      qed
      then have "indexOf (seen @ c) Ot = - 1" by (simp add: indexOf_none)
      then have "?bs' = (seen @ c, snd bs)"
        using extract_waiting_none[OF st(2) st(1), of "seen @ c" tag] st(4) by (simp add: Ot_def)
      then show ?thesis using True st by (simp add: tracking_def)
    next
      case False
      then have ge: "a \<le> length (seen @ c)" by simp
      have "prefix Ot (drop (length pre) (seen @ c))"
        using pfx[folded S_def] occO ge[unfolded a_def] by (rule occ_restrict)
      moreover have "\<not> prefix Ot (drop j (seen @ c))" if "j < length pre" for j
        using firstS[OF that] occ_extend[OF pfx[folded S_def], of Ot j] by blast
      ultimately have "indexOf (seen @ c) Ot = int (length pre)" by (simp add: indexOf_first)
      then have "?bs' = extractTagFromBuffer (drop a (seen @ c)) tag ((snd bs)\<lparr>opened := True\<rparr>)"
        using extract_waiting_found[OF st(2) st(1), of "seen @ c" tag "length pre"] st(4)
        by (simp add: Ot_def a_def)
      moreover have "tracking tag a inner (seen @ c)
          (extractTagFromBuffer (drop a (seen @ c)) tag ((snd bs)\<lparr>opened := True\<rparr>))"
        using st ge by (intro closing) simp_all
      ultimately show ?thesis by simp
    qed
  next
    case A
    with inv have st: "opened (snd bs)" "\<not> done (snd bs)" "text (snd bs) @ fst bs = drop a seen"
      "length (text (snd bs)) \<le> n"
      by (simp_all add: tracking_def a_def n_def C_def)
    have "text (snd bs) @ (fst bs @ c) = drop a (seen @ c)"
      using st(3) A(1) by simp
    then show ?thesis using st A(1) by (intro closing) simp_all
  next
    case D
    with inv have st: "done (snd bs)" "text (snd bs) = inner"
      by (simp_all add: tracking_def a_def n_def C_def)
    then show ?thesis using D by (simp add: extract_done tracking_def a_def n_def C_def)
  qed
  then show ?thesis by (simp add: a_def)
qed

lemma tracking_fold:
  assumes "indexOf (pre @ ''<'' @ tag @ ''>'' @ inner @ ''</'' @ tag @ ''>'' @ post) (''<'' @ tag @ ''>'')
             = int (length pre)"
    and "indexOf (inner @ ''</'' @ tag @ ''>'' @ post) (''</'' @ tag @ ''>'') = int (length inner)"
    and "prefix (seen @ concat chunks) (pre @ ''<'' @ tag @ ''>'' @ inner @ ''</'' @ tag @ ''>'' @ post)"
    and "tracking tag (length pre + length (''<'' @ tag @ ''>'')) inner seen bs"
  shows "tracking tag (length pre + length (''<'' @ tag @ ''>'')) inner (seen @ concat chunks)
           (foldl (pushChunk tag) bs chunks)"
  using assms(3,4)
proof (induction chunks arbitrary: seen bs)
  case Nil
  then show ?case by simp
next
  case (Cons c chunks)
  have p: "prefix (seen @ c) (pre @ ''<'' @ tag @ ''>'' @ inner @ ''</'' @ tag @ ''>'' @ post)"
  proof -
    have "prefix (seen @ c) (seen @ concat (c # chunks))" by (rule prefixI) simp
    then show ?thesis using Cons.prems(1) by (rule prefix_order.trans)
  qed
  have "tracking tag (length pre + length (''<'' @ tag @ ''>'')) inner (seen @ c)
          (pushChunk tag bs c)"
    unfolding pushChunk_def
    using tracking_step[of pre tag inner post seen c bs] assms(1,2) p Cons.prems(2) by simp
  then show ?case using Cons.IH[of "seen @ c" "pushChunk tag bs c"] Cons.prems(1) by simp
qed

lemma extractTag_chunks:
  assumes "indexOf (pre @ ''<'' @ tag @ ''>'' @ inner @ ''</'' @ tag @ ''>'' @ post) (''<'' @ tag @ ''>'')
             = int (length pre)"
    and "indexOf (inner @ ''</'' @ tag @ ''>'' @ post) (''</'' @ tag @ ''>'') = int (length inner)"
    and "concat chunks = pre @ ''<'' @ tag @ ''>'' @ inner @ ''</'' @ tag @ ''>'' @ post"
  shows "done (snd (feedChunks tag chunks)) \<and> text (snd (feedChunks tag chunks)) = inner"
proof -
  have "tracking tag (length pre + length (''<'' @ tag @ ''>'')) inner [] ([], initialTagState)"
    by (simp add: tracking_def initialTagState_def)
  from tracking_fold[OF assms(1,2) _ this, of chunks]
  show ?thesis using assms(3) by (simp add: tracking_def feedChunks_def)
qed

lemma extractTag_example:
  "text (snd (feedChunks ''text''
      [''<actions>REP'', ''LY</actions><te'', ''xt>A'', ''B</te'', ''xt>''])) = ''AB''"
  by (simp add: feedChunks_def pushChunk_def extractTagFromBuffer_def initialTagState_def Let_def)

text \<open>
  C4: let a stream be \<open>pre <tag> inner </tag> post\<close>, where the open marker shown is the
  first one in the stream and the close marker shown is the first one after it. However
  the stream is cut into chunks, appending the chunks in order to the buffer, with a push
  after each, leaves the tracker done with accumulated text \<open>inner\<close>. In particular the
  chunks \<open>"<actions>REP", "LY</actions><te", "xt>A", "B</te", "xt>"\<close> give the tracker
  of \<open>text\<close> the text \<open>"AB"\<close>.
\<close>

theorem extractTag_exact:
  "(indexOf (pre @ ''<'' @ tag @ ''>'' @ inner @ ''</'' @ tag @ ''>'' @ post) (''<'' @ tag @ ''>'')
      = int (length pre)
    \<and> indexOf (inner @ ''</'' @ tag @ ''>'' @ post) (''</'' @ tag @ ''>'') = int (length inner)
    \<and> concat chunks = pre @ ''<'' @ tag @ ''>'' @ inner @ ''</'' @ tag @ ''>'' @ post
    \<longrightarrow> done (snd (feedChunks tag chunks)) \<and> text (snd (feedChunks tag chunks)) = inner)
   \<and> text (snd (feedChunks ''text''
        [''<actions>REP'', ''LY</actions><te'', ''xt>A'', ''B</te'', ''xt>''])) = ''AB''"
  using extractTag_chunks[of pre tag inner post chunks] extractTag_example by blast

theorem extractTag_exact_witness:
  "indexOf (''<actions>REPLY</actions>'' @ ''<'' @ ''text'' @ ''>'' @ ''AB'' @ ''</'' @ ''text'' @ ''>'' @ [])
      (''<'' @ ''text'' @ ''>'') = int (length ''<actions>REPLY</actions>'')
   \<and> indexOf (''AB'' @ ''</'' @ ''text'' @ ''>'' @ []) (''</'' @ ''text'' @ ''>'') = int (length ''AB'')
   \<and> concat [''<actions>REP'', ''LY</actions><te'', ''xt>A'', ''B</te'', ''xt>'']
       = ''<actions>REPLY</actions>'' @ ''<'' @ ''text'' @ ''>'' @ ''AB'' @ ''</'' @ ''text'' @ ''>'' @ []
   \<and> done (snd (feedChunks ''text''
        [''<actions>REP'', ''LY</actions><te'', ''xt>A'', ''B</te'', ''xt>'']))
   \<and> text (snd (feedChunks ''text''
        [''<actions>REP'', ''LY</actions><te'', ''xt>A'', ''B</te'', ''xt>''])) = ''AB''"
proof -
  have h1: "indexOf (''<actions>REPLY</actions>'' @ ''<'' @ ''text'' @ ''>'' @ ''AB'' @ ''</'' @ ''text'' @ ''>'' @ [])
      (''<'' @ ''text'' @ ''>'') = int (length ''<actions>REPLY</actions>'')"
    by simp
  have h2: "indexOf (''AB'' @ ''</'' @ ''text'' @ ''>'' @ []) (''</'' @ ''text'' @ ''>'') = int (length ''AB'')"
    by simp
  have h3: "concat [''<actions>REP'', ''LY</actions><te'', ''xt>A'', ''B</te'', ''xt>'']
       = ''<actions>REPLY</actions>'' @ ''<'' @ ''text'' @ ''>'' @ ''AB'' @ ''</'' @ ''text'' @ ''>'' @ []"
    by simp
  from extractTag_exact[of "''<actions>REPLY</actions>''" "''text''" "''AB''" "[]"
      "[''<actions>REP'', ''LY</actions><te'', ''xt>A'', ''B</te'', ''xt>'']"] h1 h2 h3
  show ?thesis by blast
qed

text \<open>
  C5: a push on a tracker that is done changes neither the buffer nor the tracker; a push
  on a tracker that is opened and not done leaves a text that extends the previous one.
\<close>

theorem extractTag_state_invariant:
  "(done st \<longrightarrow> extractTagFromBuffer buf tag st = (buf, st))
   \<and> (opened st \<and> \<not> done st \<longrightarrow>
        prefix (text st) (text (snd (extractTagFromBuffer buf tag st))))"
  by (simp add: extractTagFromBuffer_def Let_def)

theorem extractTag_state_invariant_witness:
  "extractTagFromBuffer ''more</text>'' ''text'' \<lparr>opened = True, done = True, text = ''AB''\<rparr>
     = (''more</text>'', \<lparr>opened = True, done = True, text = ''AB''\<rparr>)
   \<and> prefix ''AB'' (text (snd (extractTagFromBuffer ''CDEFGHIJKL'' ''text''
                                  \<lparr>opened = True, done = False, text = ''AB''\<rparr>)))
   \<and> text (snd (extractTagFromBuffer ''CDEFGHIJKL'' ''text''
                                  \<lparr>opened = True, done = False, text = ''AB''\<rparr>)) = ''ABCDE''"
proof -
  have "extractTagFromBuffer ''more</text>'' ''text'' \<lparr>opened = True, done = True, text = ''AB''\<rparr>
     = (''more</text>'', \<lparr>opened = True, done = True, text = ''AB''\<rparr>)"
    using extractTag_state_invariant
      [of "\<lparr>opened = True, done = True, text = ''AB''\<rparr>" "''more</text>''" "''text''"]
    by simp
  moreover have "prefix ''AB'' (text (snd (extractTagFromBuffer ''CDEFGHIJKL'' ''text''
                                  \<lparr>opened = True, done = False, text = ''AB''\<rparr>)))"
    using extractTag_state_invariant
      [of "\<lparr>opened = True, done = False, text = ''AB''\<rparr>" "''CDEFGHIJKL''" "''text''"]
    by simp
  moreover have "text (snd (extractTagFromBuffer ''CDEFGHIJKL'' ''text''
                                  \<lparr>opened = True, done = False, text = ''AB''\<rparr>)) = ''ABCDE''"
    by (simp add: extractTagFromBuffer_def Let_def)
  ultimately show ?thesis by simp
qed

subsection \<open>Matches and replacements\<close>

lemma search_None:
  "search ps s = None \<longleftrightarrow> (\<forall>k \<le> length s. matchAt ps (drop k s) = None)"
proof (induction s)
  case Nil
  then show ?case by simp
next
  case (Cons x xs)
  have "(\<forall>k \<le> length (x # xs). matchAt ps (drop k (x # xs)) = None)
        \<longleftrightarrow> matchAt ps (x # xs) = None \<and> (\<forall>k \<le> length xs. matchAt ps (drop k xs) = None)"
  proof
    assume a: "\<forall>k \<le> length (x # xs). matchAt ps (drop k (x # xs)) = None"
    have "matchAt ps (x # xs) = None" using a[rule_format, of 0] by simp
    moreover have "\<forall>k \<le> length xs. matchAt ps (drop k xs) = None"
    proof (intro allI impI)
      fix k assume "k \<le> length xs"
      then show "matchAt ps (drop k xs) = None" using a[rule_format, of "Suc k"] by simp
    qed
    ultimately show "matchAt ps (x # xs) = None \<and> (\<forall>k \<le> length xs. matchAt ps (drop k xs) = None)"
      by simp
  next
    assume a: "matchAt ps (x # xs) = None \<and> (\<forall>k \<le> length xs. matchAt ps (drop k xs) = None)"
    show "\<forall>k \<le> length (x # xs). matchAt ps (drop k (x # xs)) = None"
    proof (intro allI impI)
      fix k assume "k \<le> length (x # xs)"
      then show "matchAt ps (drop k (x # xs)) = None" using a by (cases k) auto
    qed
  qed
  then show ?case using Cons by (auto split: option.splits)
qed

lemma replaceAll_id:
  "search ps s = None \<Longrightarrow> replaceAll ps rep s = s"
proof (induction s)
  case Nil
  then show ?case by simp
next
  case (Cons x xs)
  then show ?case by (auto split: option.splits)
qed

lemma replaceAll_subset: "set (replaceAll ps [] s) \<subseteq> set s"
proof (induction ps "[] :: string" s rule: replaceAll.induct)
  case (1 ps)
  then show ?case by (simp split: option.splits)
next
  case (2 ps x xs)
  show ?case
  proof (cases "matchAt ps (x # xs)")
    case None
    then show ?thesis using 2(1) by auto
  next
    case (Some m)
    show ?thesis
    proof (cases m)
      case 0
      then show ?thesis using Some 2(2) by auto
    next
      case (Suc n)
      have "set (drop n xs) \<subseteq> set xs" by (rule set_drop_subset)
      then show ?thesis using Some Suc 2(3)[OF Some Suc] by auto
    qed
  qed
qed

lemma matchAt_Lit_head:
  "matchAt (Lit (c # l) # ps) s = Some n \<Longrightarrow> s \<noteq> [] \<and> hd s = c"
  by (cases s) (auto split: if_splits)

lemma search_Lit_absent:
  assumes "c \<notin> set s"
  shows "search (Lit (c # l) # ps) s = None"
proof -
  have "matchAt (Lit (c # l) # ps) (drop k s) = None" for k
  proof (rule ccontr)
    assume "matchAt (Lit (c # l) # ps) (drop k s) \<noteq> None"
    then obtain n where "matchAt (Lit (c # l) # ps) (drop k s) = Some n" by auto
    from matchAt_Lit_head[OF this] have "drop k s \<noteq> []" "hd (drop k s) = c" by auto
    then have "c \<in> set (drop k s)" by (metis hd_in_set)
    then show False using assms by (meson in_set_dropD)
  qed
  then show ?thesis by (simp add: search_None)
qed

lemma matchAt_one:
  "matchAt [rxOne c] s = (case s of [] \<Rightarrow> None | x # xs \<Rightarrow> if c x then Some 1 else None)"
proof (cases s)
  case Nil
  then show ?thesis by (simp add: rxOne_def)
next
  case (Cons x xs)
  have "matchAt [Rep c 0 (Some 0)] xs = Some 0" by (cases xs) simp_all
  then show ?thesis using Cons by (simp add: rxOne_def)
qed

lemma replaceAll_one: "replaceAll [rxOne c] [] s = filter (\<lambda>x. \<not> c x) s"
  by (induction s) (auto simp: matchAt_one)

lemma replaceAll_Lit1: "replaceAll [Lit [c]] rep s = concat (map (\<lambda>x. if x = c then rep else [x]) s)"
  by (induction s) auto

subsection \<open>Input scrubber (C1, C8)\<close>

lemmas strip_eval = stripInputArtifacts_def hasMouseSequence_def test_def
  sgrMouse_def urxvtMouse_def partialMouse_def x10Mouse_def x10Partial_def csiSeq_def oscSeq_def
  strayEsc_def controlChar_def rxOne_def rxOpt_def rxStar_def rxPlus_def rxTimes_def
  digit_def anyChar_def control_def inRange_def ESC_def BEL_def CR_def LF_def

lemma strip_fixed:
  assumes esc: "ESC \<notin> set s" and cr: "CR \<notin> set s" and ctl: "\<forall>c \<in> set s. \<not> control c"
    and pm: "search partialMouse s = None" and xp: "search x10Partial s = None"
  shows "stripInputArtifacts s = s"
proof -
  have 1: "replaceAll [Lit [CR, LF]] [LF] s = s"
    using cr by (intro replaceAll_id search_Lit_absent)
  have 2: "replaceAll [Lit [CR]] [LF] s = s"
    using cr by (intro replaceAll_id search_Lit_absent)
  have 3: "replaceAll sgrMouse [] s = s"
    unfolding sgrMouse_def using esc by (intro replaceAll_id search_Lit_absent)
  have 4: "replaceAll urxvtMouse [] s = s"
    unfolding urxvtMouse_def using esc by (intro replaceAll_id search_Lit_absent)
  have 5: "replaceAll partialMouse [] s = s"
    using pm by (rule replaceAll_id)
  have 6: "replaceAll x10Mouse [] s = s"
    unfolding x10Mouse_def using esc by (intro replaceAll_id search_Lit_absent)
  have 7: "replaceAll x10Partial [] s = s"
    using xp by (rule replaceAll_id)
  have 8: "replaceAll csiSeq [] s = s"
    unfolding csiSeq_def using esc by (intro replaceAll_id search_Lit_absent)
  have 9: "replaceAll oscSeq [] s = s"
    unfolding oscSeq_def using esc by (intro replaceAll_id search_Lit_absent)
  have 10: "replaceAll strayEsc [] s = s"
    unfolding strayEsc_def using esc by (intro replaceAll_id search_Lit_absent)
  have 11: "replaceAll controlChar [] s = s"
    using ctl by (simp add: controlChar_def replaceAll_one)
  show ?thesis
    by (simp add: stripInputArtifacts_def Let_def 1 2 3 4 5 6 7 8 9 10 11)
qed

lemma strip_chars:
  "ESC \<notin> set (stripInputArtifacts x) \<and> CR \<notin> set (stripInputArtifacts x)
   \<and> (\<forall>c \<in> set (stripInputArtifacts x). \<not> control c)"
proof -
  define y where "y = replaceAll [Lit [CR]] [LF] (replaceAll [Lit [CR, LF]] [LF] x)"
  define z where "z = replaceAll strayEsc [] (replaceAll oscSeq [] (replaceAll csiSeq []
      (replaceAll x10Partial [] (replaceAll x10Mouse [] (replaceAll partialMouse []
      (replaceAll urxvtMouse [] (replaceAll sgrMouse [] y)))))))"
  have s: "stripInputArtifacts x = filter (\<lambda>c. \<not> control c) z"
    by (simp add: stripInputArtifacts_def Let_def y_def z_def controlChar_def replaceAll_one)
  have "CR \<notin> set y" by (auto simp: y_def replaceAll_Lit1 CR_def LF_def split: if_splits)
  moreover have "set z \<subseteq> set y"
    unfolding z_def
    by (meson replaceAll_subset subset_trans)
  ultimately have "CR \<notin> set z" by auto
  moreover have "control ESC" by (simp add: control_def ESC_def inRange_def)
  ultimately show ?thesis by (auto simp: s)
qed

lemma no_partial_forms:
  "\<not> hasMouseSequence s \<Longrightarrow> search partialMouse s = None \<and> search x10Partial s = None"
  unfolding hasMouseSequence_def test_def by blast

text \<open>
  C8, as stated, fails on text that holds a leftover partial mouse form: the text
  \<open>see [12;3;4m here\<close> has no escape character, no control character and no carriage
  return, and the scrubber deletes \<open>[12;3;4m\<close> from it.
\<close>

theorem stripInputArtifacts_partial_form_counterexample:
  "stripInputArtifacts ''see [12;3;4m here'' = ''see  here''
   \<and> stripInputArtifacts ''see [12;3;4m here'' \<noteq> ''see [12;3;4m here''"
proof -
  have "stripInputArtifacts ''see [12;3;4m here'' = ''see  here''" by (simp add: strip_eval)
  then show ?thesis by simp
qed

text \<open>
  C8, amended: for every string \<open>s\<close> that contains no C0 control character other than tab
  and newline (so no escape character and no carriage return), no DEL character, and
  for which \<open>hasMouseSequence(s)\<close> is false (no leftover partial mouse form
  \<open>[<?d;d;d(m|M)\<close> or \<open>[M\<close> with three characters), \<open>stripInputArtifacts(s) = s\<close>.
\<close>

theorem stripInputArtifacts_plain_identity:
  assumes "\<forall>c \<in> set s. (of_char c :: nat) \<le> 0x1F \<longrightarrow> c = CHR 0x09 \<or> c = CHR 0x0A"
    and "CHR 0x7F \<notin> set s"
    and "\<not> hasMouseSequence s"
  shows "stripInputArtifacts s = s"
proof (rule strip_fixed)
  show "ESC \<notin> set s" using assms(1) by (auto simp: ESC_def)
  show "CR \<notin> set s" using assms(1) by (auto simp: CR_def)
  show "\<forall>c \<in> set s. \<not> control c"
  proof
    fix c assume c: "c \<in> set s"
    show "\<not> control c"
    proof
      assume "control c"
      then have "c = CHR 0x7F \<or> ((of_char c :: nat) \<le> 0x1F \<and> c \<noteq> CHR 0x09 \<and> c \<noteq> CHR 0x0A)"
        by (auto simp: control_def inRange_def)
      then show False using assms(1,2) c by auto
    qed
  qed
  show "search partialMouse s = None" using no_partial_forms[OF assms(3)] by simp
  show "search x10Partial s = None" using no_partial_forms[OF assms(3)] by simp
qed

theorem stripInputArtifacts_plain_identity_witness:
  "\<not> hasMouseSequence [CHR ''a'', CHR 0x09, CHR ''['', CHR ''1'', CHR '';'', CHR 0x0A, CHR ''m'']
   \<and> CHR 0x7F \<notin> set [CHR ''a'', CHR 0x09, CHR ''['', CHR ''1'', CHR '';'', CHR 0x0A, CHR ''m'']
   \<and> stripInputArtifacts [CHR ''a'', CHR 0x09, CHR ''['', CHR ''1'', CHR '';'', CHR 0x0A, CHR ''m'']
       = [CHR ''a'', CHR 0x09, CHR ''['', CHR ''1'', CHR '';'', CHR 0x0A, CHR ''m'']"
proof -
  let ?s = "[CHR ''a'', CHR 0x09, CHR ''['', CHR ''1'', CHR '';'', CHR 0x0A, CHR ''m'']"
  have h1: "\<forall>c \<in> set ?s. (of_char c :: nat) \<le> 0x1F \<longrightarrow> c = CHR 0x09 \<or> c = CHR 0x0A"
    by simp
  have h2: "CHR 0x7F \<notin> set ?s" by simp
  have h3: "\<not> hasMouseSequence ?s" by (simp add: strip_eval)
  from stripInputArtifacts_plain_identity[OF h1 h2 h3] h2 h3 show ?thesis by blast
qed

text \<open>
  C1, as stated, fails: deleting one partial mouse form can leave another one behind. One
  scrub of \<open>[1;2;[1;2;3m3m\<close> gives \<open>[1;2;3m\<close>, and a second scrub gives the empty string.
\<close>

theorem stripInputArtifacts_not_idempotent_counterexample:
  "stripInputArtifacts ''[1;2;[1;2;3m3m'' = ''[1;2;3m''
   \<and> stripInputArtifacts (stripInputArtifacts ''[1;2;[1;2;3m3m'') = []
   \<and> stripInputArtifacts (stripInputArtifacts ''[1;2;[1;2;3m3m'')
       \<noteq> stripInputArtifacts ''[1;2;[1;2;3m3m''"
proof -
  have 1: "stripInputArtifacts ''[1;2;[1;2;3m3m'' = ''[1;2;3m''" by (simp add: strip_eval)
  have 2: "stripInputArtifacts ''[1;2;3m'' = []" by (simp add: strip_eval)
  show ?thesis by (simp add: 1 2)
qed

text \<open>
  C1, amended: for every string \<open>x\<close> whose scrub holds no mouse form, that is for which
  \<open>hasMouseSequence(stripInputArtifacts(x))\<close> is false, a second scrub changes nothing:
  \<open>stripInputArtifacts(stripInputArtifacts(x)) = stripInputArtifacts(x)\<close>.
\<close>

theorem stripInputArtifacts_idempotent_clean:
  assumes "\<not> hasMouseSequence (stripInputArtifacts x)"
  shows "stripInputArtifacts (stripInputArtifacts x) = stripInputArtifacts x"
proof -
  have "search partialMouse (stripInputArtifacts x) = None"
    using no_partial_forms[OF assms] by simp
  moreover have "search x10Partial (stripInputArtifacts x) = None"
    using no_partial_forms[OF assms] by simp
  ultimately show ?thesis using strip_chars[of x] by (intro strip_fixed) simp_all
qed

theorem stripInputArtifacts_idempotent_clean_witness:
  "stripInputArtifacts (''a'' @ ESC # ''[<64;10;5M'' @ CR # ''b'') = ''a'' @ LF # ''b''
   \<and> \<not> hasMouseSequence (stripInputArtifacts (''a'' @ ESC # ''[<64;10;5M'' @ CR # ''b''))
   \<and> stripInputArtifacts (stripInputArtifacts (''a'' @ ESC # ''[<64;10;5M'' @ CR # ''b''))
       = stripInputArtifacts (''a'' @ ESC # ''[<64;10;5M'' @ CR # ''b'')"
proof -
  have e: "stripInputArtifacts (''a'' @ ESC # ''[<64;10;5M'' @ CR # ''b'') = ''a'' @ LF # ''b''"
    by (simp add: strip_eval)
  have h: "\<not> hasMouseSequence (stripInputArtifacts (''a'' @ ESC # ''[<64;10;5M'' @ CR # ''b''))"
    by (simp add: strip_eval)
  from stripInputArtifacts_idempotent_clean[OF h] e h show ?thesis by blast
qed

subsection \<open>Mouse-scroll decoder (C2, C3)\<close>

lemma Rep_greedy:
  assumes "\<And>x xs. c x \<Longrightarrow> matchAt ps (x # xs) = None"
  shows "matchAt (Rep c lo None # ps) s =
           (if lo \<le> length (takeWhile c s)
            then map_option (\<lambda>n. length (takeWhile c s) + n) (matchAt ps (dropWhile c s))
            else None)"
proof (induction s arbitrary: lo)
  case Nil
  then show ?case by (simp add: option.map_ident)
next
  case (Cons x xs)
  show ?case
  proof (cases "c x")
    case True
    have "lo - 1 \<le> length (takeWhile c xs) \<longleftrightarrow> lo \<le> Suc (length (takeWhile c xs))" by arith
    then show ?thesis using True assms[OF True, of xs] Cons[of "lo - 1"]
      by (auto split: option.splits)
  next
    case False
    then show ?thesis by (simp add: option.map_ident)
  qed
qed

lemma digit_not_semicolon: "digit x \<Longrightarrow> x \<noteq> CHR '';''"
  by (auto simp: digit_def inRange_def)

lemma semicolon_blocks_digit: "digit x \<Longrightarrow> matchAt (Lit '';'' # ps) (x # xs) = None"
  using digit_not_semicolon by auto

lemma prefix_two: "prefix [a, b] r \<longleftrightarrow> take 2 r = [a, b]"
proof (cases r)
  case Nil
  then show ?thesis by simp
next
  case (Cons x xs)
  then show ?thesis by (cases xs) auto
qed

lemma Alt_buttons:
  "matchAt (Alt [''64'', ''65'', ''96'', ''97''] # ps) r =
     (if take 2 r \<in> {''64'', ''65'', ''96'', ''97''}
      then map_option (\<lambda>n. 2 + n) (matchAt ps (drop 2 r)) else None)"
proof (cases "matchAt ps (drop 2 r)")
  case None
  then show ?thesis by (simp add: prefix_two numeral_2_eq_2)
next
  case (Some m)
  then show ?thesis by (simp add: prefix_two numeral_2_eq_2)
qed

lemma coords_blocks_digit: "digit x \<Longrightarrow> matchAt coords (x # xs) = None"
  unfolding coords_def by (rule semicolon_blocks_digit)

lemma sgrMouse_split: "sgrMouse = Lit (ESC # ''[<'') # rxPlus digit # coords"
  by (simp add: sgrMouse_def coords_def)

lemma sgrPattern_split: "sgrPattern = Lit (ESC # ''[<'') # Alt [''64'', ''65'', ''96'', ''97''] # coords"
  by (simp add: sgrPattern_def coords_def)

lemma matchAt_sgrMouse:
  "matchAt sgrMouse s =
     (if prefix (ESC # ''[<'') s \<and> 1 \<le> length (takeWhile digit (drop 3 s))
      then map_option (\<lambda>n. 3 + (length (takeWhile digit (drop 3 s)) + n))
             (matchAt coords (dropWhile digit (drop 3 s)))
      else None)"
  unfolding sgrMouse_split rxPlus_def
  by (simp add: Rep_greedy[of digit coords, OF coords_blocks_digit] option.map_comp comp_def
        numeral_3_eq_3)

lemma matchAt_sgrPattern:
  "matchAt sgrPattern s =
     (if prefix (ESC # ''[<'') s \<and> take 2 (drop 3 s) \<in> {''64'', ''65'', ''96'', ''97''}
      then map_option (\<lambda>n. 3 + (2 + n)) (matchAt coords (drop 2 (drop 3 s)))
      else None)"
  unfolding sgrPattern_split
  by (simp add: Alt_buttons option.map_comp comp_def numeral_3_eq_3 del: matchAt.simps(4))


lemma buttons_digits:
  assumes "b \<in> {''64'', ''65'', ''96'', ''97''}"
  shows "length b = 2 \<and> (\<forall>c \<in> set b. digit c)"
  using assms by (auto simp: digit_def inRange_def)

lemma coords_head: "matchAt coords r = Some m \<Longrightarrow> r \<noteq> [] \<and> hd r = CHR '';''"
  unfolding coords_def by (rule matchAt_Lit_head)

lemma button_run:
  assumes b: "take 2 r \<in> {''64'', ''65'', ''96'', ''97''}" and m: "matchAt coords (drop 2 r) = Some m"
  shows "takeWhile digit r = take 2 r \<and> dropWhile digit r = drop 2 r"
proof -
  from coords_head[OF m] obtain rest where d: "drop 2 r = CHR '';'' # rest"
    by (cases "drop 2 r") auto
  have r: "r = take 2 r @ CHR '';'' # rest" using d by (metis append_take_drop_id)
  have dg: "\<forall>c \<in> set (take 2 r). digit c" using buttons_digits[OF b] by simp
  have nd: "\<not> digit (CHR '';'')" by (simp add: digit_def inRange_def)
  have "takeWhile digit (take 2 r @ CHR '';'' # rest) = take 2 r"
    using dg nd by (simp add: takeWhile_append2 del: take_append)
  moreover have "dropWhile digit (take 2 r @ CHR '';'' # rest) = CHR '';'' # rest"
    using dg nd by (simp add: dropWhile_append2 del: take_append)
  ultimately show ?thesis using r d by metis
qed

lemma contribution_wheel:
  assumes "matchAt sgrPattern s = Some n"
  shows "contribution s
           = (if take 2 (drop 3 s) = ''64'' \<or> take 2 (drop 3 s) = ''96'' then 1 else - 1)"
proof -
  from assms have p: "prefix (ESC # ''[<'') s"
    and b: "take 2 (drop 3 s) \<in> {''64'', ''65'', ''96'', ''97''}"
    and "matchAt coords (drop 2 (drop 3 s)) \<noteq> None"
    by (auto simp: matchAt_sgrPattern split: if_splits)
  then obtain m where m: "matchAt coords (drop 2 (drop 3 s)) = Some m" by auto
  from button_run[OF b m] have tw: "takeWhile digit (drop 3 s) = take 2 (drop 3 s)"
    and dw: "dropWhile digit (drop 3 s) = drop 2 (drop 3 s)" by simp_all
  have "length (take 2 (drop 3 s)) = 2" using buttons_digits[OF b] by blast
  then have "matchAt sgrMouse s \<noteq> None"
    using p m by (simp add: matchAt_sgrMouse tw dw del: length_take)
  then have "sgrButtonAt s = Some (take 2 (drop 3 s))"
    by (auto simp: sgrButtonAt_def tw)
  then show ?thesis using b by (auto simp: contribution_def wheelValue_def)
qed

lemma contribution_none:
  assumes "matchAt sgrPattern s = None"
  shows "contribution s = 0"
proof (cases "matchAt sgrMouse s")
  case None
  then show ?thesis by (simp add: contribution_def sgrButtonAt_def)
next
  case (Some n)
  then have p: "prefix (ESC # ''[<'') s"
    and "matchAt coords (dropWhile digit (drop 3 s)) \<noteq> None"
    by (auto simp: matchAt_sgrMouse split: if_splits)
  then obtain m where m: "matchAt coords (dropWhile digit (drop 3 s)) = Some m" by auto
  let ?b = "takeWhile digit (drop 3 s)"
  have btn: "sgrButtonAt s = Some ?b" using Some by (simp add: sgrButtonAt_def)
  show ?thesis
  proof (cases "?b \<in> {''64'', ''65'', ''96'', ''97''}")
    case False
    then show ?thesis using btn by (auto simp: contribution_def wheelValue_def)
  next
    case True
    then have len: "length ?b = 2" using buttons_digits by blast
    have split: "drop 3 s = ?b @ dropWhile digit (drop 3 s)" by simp
    have t: "take 2 (drop 3 s) = ?b"
      by (subst split) (simp add: len del: takeWhile_dropWhile_id)
    have d: "drop 2 (drop 3 s) = dropWhile digit (drop 3 s)"
      by (subst split) (simp add: len del: takeWhile_dropWhile_id)
    have "matchAt sgrPattern s \<noteq> None"
      using p True m unfolding matchAt_sgrPattern t d by simp
    with assms show ?thesis by simp
  qed
qed


lemma matchAt_accepts:
  "matchAt ps s = Some n \<Longrightarrow> \<forall>c \<in> set (take n s). \<exists>p \<in> set ps. accepts p c"
proof (induction ps s arbitrary: n rule: matchAt.induct)
  case (1 s)
  then show ?case by simp
next
  case (2 l ps s)
  from 2(2) obtain m where p: "prefix l s" and m: "matchAt ps (drop (length l) s) = Some m"
    and n: "n = length l + m"
    by (auto split: if_splits)
  from p obtain t where s: "s = l @ t" by (auto simp: prefix_def)
  have "\<forall>c \<in> set (take m t). \<exists>p \<in> set ps. accepts p c"
    using 2(1)[OF p m] s by simp
  then show ?case using s n by auto
next
  case (3 ps s)
  then show ?case by simp
next
  case (4 l ls ps s)
  show ?case
  proof (cases "if prefix l s then matchAt ps (drop (length l) s) else None")
    case None
    with 4(3) have "matchAt (Alt ls # ps) s = Some n" by simp
    from 4(2)[OF None this] show ?thesis by auto
  next
    case (Some m)
    then have p: "prefix l s" and m: "matchAt ps (drop (length l) s) = Some m"
      by (auto split: if_splits)
    from Some 4(3) have n: "n = length l + m" by simp
    from p obtain t where s: "s = l @ t" by (auto simp: prefix_def)
    have "\<forall>c \<in> set (take m t). \<exists>p \<in> set ps. accepts p c"
      using 4(1)[OF p m] s by simp
    then show ?thesis using s n by auto
  qed
next
  case (5 c lo hi ps)
  then show ?case by simp
next
  case (6 c lo hi ps x xs)
  show ?case
  proof (cases "if c x \<and> hi \<noteq> Some 0
            then matchAt (Rep c (lo - 1) (map_option (\<lambda>h. h - 1) hi) # ps) xs else None")
    case None
    with 6(3) have lo: "lo = 0" and m: "matchAt ps (x # xs) = Some n"
      by (auto split: if_splits)
    from 6(2)[OF None lo m] show ?thesis by auto
  next
    case (Some m)
    then have c: "c x \<and> hi \<noteq> Some 0"
      and m: "matchAt (Rep c (lo - 1) (map_option (\<lambda>h. h - 1) hi) # ps) xs = Some m"
      by (auto split: if_splits)
    from Some 6(3) have n: "n = Suc m" by simp
    have "\<forall>c' \<in> set (take m xs). \<exists>p \<in> set (Rep c (lo - 1) (map_option (\<lambda>h. h - 1) hi) # ps). accepts p c'"
      using 6(1)[OF c m] .
    then have "\<forall>c' \<in> set (take m xs). \<exists>p \<in> set (Rep c lo hi # ps). accepts p c'"
      by auto
    then show ?thesis using c n by auto
  qed
qed

lemma matchAt_Lit_Some:
  "matchAt (Lit l # ps) s = Some n \<Longrightarrow>
     \<exists>m. prefix l s \<and> matchAt ps (drop (length l) s) = Some m \<and> n = length l + m"
  by (auto split: if_splits)

lemma wheel_match_no_esc:
  assumes "matchAt sgrPattern s = Some n"
  shows "ESC \<notin> set (take (n - 1) (drop 1 s))"
proof -
  from matchAt_Lit_Some[OF assms[unfolded sgrPattern_split]]
  obtain m where p: "prefix (ESC # ''[<'') s"
    and m: "matchAt (Alt [''64'', ''65'', ''96'', ''97''] # coords)
              (drop (length (ESC # ''[<'')) s) = Some m"
    and n: "n = length (ESC # ''[<'') + m"
    by blast
  from p obtain t where s: "s = (ESC # ''[<'') @ t" by (auto simp: prefix_def)
  have t: "drop (length (ESC # ''[<'')) s = t" by (simp add: s)
  have acc: "\<forall>c \<in> set (take m t). \<exists>p \<in> set (Alt [''64'', ''65'', ''96'', ''97''] # coords). accepts p c"
    using matchAt_accepts[OF m[unfolded t]] .
  have noesc: "\<not> accepts p ESC" if "p \<in> set (Alt [''64'', ''65'', ''96'', ''97''] # coords)" for p
  proof -
    have "\<not> digit ESC" by (simp add: digit_def inRange_def ESC_def)
    moreover have "ESC \<notin> set ''64597;mM''" by (simp add: ESC_def)
    ultimately show ?thesis using that by (auto simp: coords_def rxPlus_def rxOne_def)
  qed
  have "ESC \<notin> set (take m t)" using acc noesc by blast
  moreover have "take (n - 1) (drop 1 s) = ''[<'' @ take m t" by (simp add: s n)
  moreover have "ESC \<notin> set ''[<''" by (simp add: ESC_def)
  ultimately show ?thesis by simp
qed

lemma contribution_no_esc: "s = [] \<or> hd s \<noteq> ESC \<Longrightarrow> contribution s = 0"
  by (cases s) (auto simp: contribution_def sgrButtonAt_def sgrMouse_def)

lemma specDelta_skip:
  "(\<forall>j<k. contribution (drop j s) = 0) \<Longrightarrow> specDelta s = specDelta (drop k s)"
proof (induction s arbitrary: k)
  case Nil
  then show ?case by simp
next
  case (Cons x xs)
  show ?case
  proof (cases k)
    case 0
    then show ?thesis by simp
  next
    case (Suc k')
    have "contribution (x # xs) = 0" using Cons.prems[rule_format, of 0] Suc by simp
    moreover have "\<forall>j<k'. contribution (drop j xs) = 0"
    proof (intro allI impI)
      fix j assume "j < k'"
      then show "contribution (drop j xs) = 0" using Cons.prems[rule_format, of "Suc j"] Suc by simp
    qed
    ultimately show ?thesis using Cons.IH[of k'] Suc by simp
  qed
qed

lemma specDelta_after_match:
  assumes "matchAt sgrPattern s = Some n"
  shows "specDelta s = contribution s + specDelta (drop n s)"
proof -
  from matchAt_Lit_Some[OF assms[unfolded sgrPattern_split]] have "3 \<le> n" by auto
  moreover from matchAt_le[OF assms] have nl: "n \<le> length s" .
  ultimately obtain x xs where s: "s = x # xs" by (cases s) auto
  have "\<forall>j<n - 1. contribution (drop j xs) = 0"
  proof (intro allI impI)
    fix j assume j: "j < n - 1"
    have "drop j xs = [] \<or> hd (drop j xs) \<noteq> ESC"
    proof (cases "drop j xs = []")
      case True then show ?thesis by simp
    next
      case False
      then have jl: "j < length xs" by simp
      have "hd (drop j xs) = xs ! j" using jl by (simp add: hd_drop_conv_nth)
      moreover have "xs ! j \<in> set (take (n - 1) xs)"
        using j jl by (metis in_set_conv_nth length_take min_less_iff_conj nth_take)
      moreover have "ESC \<notin> set (take (n - 1) xs)"
        using wheel_match_no_esc[OF assms] s by simp
      ultimately show ?thesis by metis
    qed
    then show "contribution (drop j xs) = 0" by (rule contribution_no_esc)
  qed
  then have "specDelta xs = specDelta (drop (n - 1) xs)" by (rule specDelta_skip)
  moreover have "drop n s = drop (n - 1) xs" using s \<open>3 \<le> n\<close> by (cases n) auto
  ultimately show ?thesis using s by simp
qed

lemma wheelLoop_delta:
  "lastIndex \<le> length buffer \<Longrightarrow>
     fst (wheelLoop buffer lastIndex d) = d + specDelta (drop lastIndex buffer)"
proof (induction buffer lastIndex d rule: wheelLoop.induct)
  case (1 buffer lastIndex d)
  show ?case
  proof (cases "exec sgrPattern buffer lastIndex")
    case None
    then have "search sgrPattern (drop lastIndex buffer) = None"
      using 1(2) by (auto simp: exec_def)
    then have "\<forall>j<length (drop lastIndex buffer). contribution (drop j (drop lastIndex buffer)) = 0"
      by (auto simp: search_None intro!: contribution_none simp del: drop_drop)
    then have "specDelta (drop lastIndex buffer)
        = specDelta (drop (length (drop lastIndex buffer)) (drop lastIndex buffer))"
      by (rule specDelta_skip)
    then have "specDelta (drop lastIndex buffer) = 0" by simp
    then show ?thesis using None by (simp add: wheelLoop.simps)
  next
    case (Some a)
    obtain i n where a: "a = (i, n)" by (cases a)
    with Some have ex: "exec sgrPattern buffer lastIndex = Some (i, n)" by simp
    then obtain k where i: "i = lastIndex + k"
      and s: "search sgrPattern (drop lastIndex buffer) = Some (k, n)"
      by (auto simp: exec_def split: if_splits)
    from search_Some[OF s] have m: "matchAt sgrPattern (drop i buffer) = Some n"
      and before: "\<forall>j<k. matchAt sgrPattern (drop j (drop lastIndex buffer)) = None"
      by (simp_all add: i add.commute)
    from exec_sgrPattern_progress[OF ex] have le: "i + n \<le> length buffer" by simp
    have "\<forall>j<k. contribution (drop j (drop lastIndex buffer)) = 0"
      using before contribution_none by blast
    then have "specDelta (drop lastIndex buffer) = specDelta (drop k (drop lastIndex buffer))"
      by (rule specDelta_skip)
    also have "\<dots> = specDelta (drop i buffer)" by (simp add: i add.commute)
    also have "\<dots> = contribution (drop i buffer) + specDelta (drop n (drop i buffer))"
      using m by (rule specDelta_after_match)
    also have "contribution (drop i buffer)
        = (if take 2 (drop (i + 3) buffer) = ''64'' \<or> take 2 (drop (i + 3) buffer) = ''96''
           then 1 else - 1)"
      using contribution_wheel[OF m] by (simp add: add.commute)
    finally have sd: "specDelta (drop lastIndex buffer)
        = (if take 2 (drop (i + 3) buffer) = ''64'' \<or> take 2 (drop (i + 3) buffer) = ''96''
           then 1 else - 1) + specDelta (drop (i + n) buffer)"
      by (simp add: add.commute)
    have "fst (wheelLoop buffer lastIndex d)
        = fst (wheelLoop buffer (i + n)
            (d + (if take 2 (drop (i + 3) buffer) = ''64'' \<or> take 2 (drop (i + 3) buffer) = ''96''
                  then 1 else - 1)))"
      using ex by (subst wheelLoop.simps) simp
    also have "\<dots> = d + (if take 2 (drop (i + 3) buffer) = ''64'' \<or> take 2 (drop (i + 3) buffer) = ''96''
                  then 1 else - 1) + specDelta (drop (i + n) buffer)"
      using 1(1)[OF ex refl le] .
    finally show ?thesis using sd by simp
  qed
qed

lemma consumeMouseScroll_delta: "delta (consumeMouseScroll buffer) = specDelta buffer"
  using wheelLoop_delta[of 0 buffer 0]
  by (simp add: consumeMouseScroll_def Let_def split_beta)


lemmas rx_eval = consumeMouseScroll_def wheelLoop.simps exec_def sgrPattern_def rxPlus_def rxOne_def
  digit_def inRange_def ESC_def Let_def

lemma splits_all:
  "map (\<lambda>k. snd (decodeChunks [] [take k (ESC # ''[<65;10;5M''), drop k (ESC # ''[<65;10;5M'')])) [0..<12]
     = [[0, - 1], [0, - 1], [0, - 1], [0, - 1], [0, - 1], [0, - 1], [0, - 1], [0, - 1], [0, - 1],
        [0, - 1], [0, - 1], [- 1, 0]]"
  by (simp add: rx_eval upt_rec)


lemma lastIndexOf_ge: "- 1 \<le> lastIndexOf s p"
  by (induction s) (auto simp: Let_def)

lemma lastIndexOf_drop: "lastIndexOf s p = int k \<Longrightarrow> lastIndexOf (drop k s) p = 0"
proof (induction s arbitrary: k)
  case Nil
  then show ?case by (auto split: if_splits)
next
  case (Cons x xs)
  show ?case
  proof (cases k)
    case 0
    then show ?thesis using Cons.prems by simp
  next
    case (Suc k')
    have ge: "- 1 \<le> lastIndexOf xs p" by (rule lastIndexOf_ge)
    from Cons.prems Suc have "lastIndexOf xs p = int k'"
      by (auto simp: Let_def split: if_splits)
    from Cons.IH[OF this] show ?thesis using Suc by simp
  qed
qed

lemma lastIndexOf_absent: "c \<notin> set s \<Longrightarrow> lastIndexOf s (c # l) = - 1"
  by (induction s) (auto simp: Let_def)

lemma consume_suffix: "suffix (remaining (consumeMouseScroll b)) b"
  by (auto simp: consumeMouseScroll_def Let_def split_beta suffix_drop
        intro: suffix_order.trans[OF suffix_drop suffix_drop])

lemma consume_introducer: "lastIndexOf (remaining (consumeMouseScroll b)) (ESC # ''[<'') \<le> 0"
proof -
  define r where "r = (if snd (wheelLoop b 0 0) > 0 then drop (snd (wheelLoop b 0 0)) b else b)"
  have rem: "remaining (consumeMouseScroll b)
      = (if lastIndexOf r (ESC # ''[<'') > 0 then drop (nat (lastIndexOf r (ESC # ''[<''))) r else r)"
    by (simp add: consumeMouseScroll_def Let_def split_beta r_def)
  show ?thesis
  proof (cases "lastIndexOf r (ESC # ''[<'') > 0")
    case True
    then have "lastIndexOf r (ESC # ''[<'') = int (nat (lastIndexOf r (ESC # ''[<'')))" by simp
    from lastIndexOf_drop[OF this] show ?thesis using True by (simp add: rem)
  next
    case False
    then show ?thesis by (simp add: rem)
  qed
qed

lemma consume_no_esc:
  assumes "ESC \<notin> set b"
  shows "consumeMouseScroll b = \<lparr>remaining = b, delta = 0\<rparr>"
proof -
  have "search sgrPattern b = None"
    unfolding sgrPattern_def using assms by (rule search_Lit_absent)
  then have "wheelLoop b 0 0 = (0, 0)" by (simp add: wheelLoop.simps exec_def)
  moreover have "lastIndexOf b (ESC # ''[<'') = - 1" using assms by (rule lastIndexOf_absent)
  ultimately show ?thesis by (simp add: consumeMouseScroll_def)
qed

lemma decodeChunks_suffix: "suffix (fst (decodeChunks buf chunks)) (buf @ concat chunks)"
proof (induction chunks arbitrary: buf)
  case Nil
  then show ?case by simp
next
  case (Cons c chunks)
  have "suffix (fst (decodeChunks (remaining (consumeMouseScroll (buf @ c))) chunks))
          (remaining (consumeMouseScroll (buf @ c)) @ concat chunks)"
    by (rule Cons.IH)
  moreover have "suffix (remaining (consumeMouseScroll (buf @ c)) @ concat chunks)
          ((buf @ c) @ concat chunks)"
    using consume_suffix[of "buf @ c"] by (simp add: suffix_def)
  ultimately show ?case by (auto simp: Let_def split_beta intro: suffix_order.trans)
qed

lemma decodeChunks_introducer:
  "chunks \<noteq> [] \<Longrightarrow> lastIndexOf (fst (decodeChunks buf chunks)) (ESC # ''[<'') \<le> 0"
proof (induction chunks arbitrary: buf)
  case Nil
  then show ?case by simp
next
  case (Cons c chunks)
  show ?case
  proof (cases "chunks = []")
    case True
    then show ?thesis using consume_introducer[of "buf @ c"] by (simp add: Let_def)
  next
    case False
    from Cons.IH[OF False] show ?thesis by (simp add: Let_def split_beta)
  qed
qed

lemma decodeChunks_no_esc:
  "ESC \<notin> set (buf @ concat chunks) \<Longrightarrow>
     decodeChunks buf chunks = (buf @ concat chunks, map (\<lambda>c. 0) chunks)"
proof (induction chunks arbitrary: buf)
  case Nil
  then show ?case by simp
next
  case (Cons c chunks)
  have "ESC \<notin> set (buf @ c)" using Cons.prems by auto
  then have "consumeMouseScroll (buf @ c) = \<lparr>remaining = buf @ c, delta = 0\<rparr>"
    by (rule consume_no_esc)
  moreover have "decodeChunks (buf @ c) chunks = ((buf @ c) @ concat chunks, map (\<lambda>c. 0) chunks)"
    using Cons.prems by (intro Cons.IH) auto
  ultimately show ?case by (simp add: Let_def)
qed

text \<open>
  C3: for every buffer the delta of \<open>consumeMouseScroll\<close> is the sum, over the complete
  SGR mouse sequences in the buffer, of \<open>+1\<close> for the button codes \<open>64\<close> and \<open>96\<close> and of
  \<open>-1\<close> for \<open>65\<close> and \<open>97\<close>; and when the wheel-down sequence \<open>ESC[<65;10;5M\<close> is cut in
  two at any of its boundaries \<open>k = 0, ..., 11\<close> and the two chunks are fed in order, the
  deltas of the two calls add up to \<open>-1\<close> and exactly one of them is not zero.
\<close>

theorem consumeMouseScroll_wheel_delta:
  "delta (consumeMouseScroll buffer) = specDelta buffer
   \<and> (\<forall>k \<le> 11.
        sum_list (snd (decodeChunks []
            [take k (ESC # ''[<65;10;5M''), drop k (ESC # ''[<65;10;5M'')])) = - 1
      \<and> length (filter (\<lambda>d. d \<noteq> 0) (snd (decodeChunks []
            [take k (ESC # ''[<65;10;5M''), drop k (ESC # ''[<65;10;5M'')]))) = 1)"
proof (intro conjI allI impI)
  show "delta (consumeMouseScroll buffer) = specDelta buffer" by (rule consumeMouseScroll_delta)
next
  fix k :: nat
  assume "k \<le> 11"
  then have k: "k < 12" by simp
  let ?f = "\<lambda>k. snd (decodeChunks [] [take k (ESC # ''[<65;10;5M''), drop k (ESC # ''[<65;10;5M'')])"
  let ?all = "[[0, - 1], [0, - 1], [0, - 1], [0, - 1], [0, - 1], [0, - 1], [0, - 1], [0, - 1],
               [0, - 1], [0, - 1], [0, - 1], [- 1, 0 :: int]]"
  have img: "set (map ?f [0..<12]) = ?f ` {0..<12}" by (simp only: set_map set_upt)
  have "k \<in> {0..<12}" using k by simp
  then have "?f k \<in> ?f ` {0..<12}" by (rule imageI)
  then have "?f k \<in> set (map ?f [0..<12])" by (simp only: img)
  then have "?f k \<in> set ?all" by (simp only: splits_all)
  then have "?f k = [0, - 1] \<or> ?f k = [- 1, 0]" by auto
  then show "sum_list (?f k) = - 1" and "length (filter (\<lambda>d. d \<noteq> 0) (?f k)) = 1" by auto
qed

theorem consumeMouseScroll_wheel_delta_witness:
  "delta (consumeMouseScroll (''a'' @ ESC # ''[<64;10;5M'' @ ESC # ''[<3;1;1m'')) = 1
   \<and> specDelta (''a'' @ ESC # ''[<64;10;5M'' @ ESC # ''[<3;1;1m'') = 1
   \<and> sum_list (snd (decodeChunks []
        [take 4 (ESC # ''[<65;10;5M''), drop 4 (ESC # ''[<65;10;5M'')])) = - 1"
proof -
  note w = consumeMouseScroll_wheel_delta[of "''a'' @ ESC # ''[<64;10;5M'' @ ESC # ''[<3;1;1m''"]
  have s: "specDelta (''a'' @ ESC # ''[<64;10;5M'' @ ESC # ''[<3;1;1m'') = 1"
    by (simp add: contribution_def sgrButtonAt_def wheelValue_def sgrMouse_def rxPlus_def rxOne_def
          digit_def inRange_def ESC_def)
  have "(4::nat) \<le> 11" by simp
  with w have "sum_list (snd (decodeChunks []
        [take 4 (ESC # ''[<65;10;5M''), drop 4 (ESC # ''[<65;10;5M'')])) = - 1"
    by blast
  moreover from w s have "delta (consumeMouseScroll (''a'' @ ESC # ''[<64;10;5M'' @ ESC # ''[<3;1;1m'')) = 1"
    by simp
  ultimately show ?thesis using s by simp
qed

text \<open>
  C2, as stated, fails: nothing in the decoder or in its caller bounds the retained buffer.
  Chunks without an escape character are retained whole, so four chunks of eight letters
  leave a buffer of 32 characters.
\<close>

theorem retained_buffer_grows_counterexample:
  "\<not> length (fst (decodeChunks [] [''aaaaaaaa'', ''aaaaaaaa'', ''aaaaaaaa'', ''aaaaaaaa''])) \<le> 12"
proof -
  have "ESC \<notin> set ([] @ concat [''aaaaaaaa'', ''aaaaaaaa'', ''aaaaaaaa'', ''aaaaaaaa''])"
    by (simp add: ESC_def)
  from decodeChunks_no_esc[OF this] show ?thesis by simp
qed

text \<open>
  C2, amended: for every sequence of chunks, the retained buffer is a suffix of the
  concatenation of the chunks, and after at least one call the introducer \<open>ESC [ <\<close>
  occurs in it at most at index 0 (what precedes the last introducer is dropped). Its
  length is not bounded: chunks that contain no escape character are retained whole.
\<close>

theorem retained_buffer_shape:
  "suffix (fst (decodeChunks [] chunks)) (concat chunks)
   \<and> (chunks \<noteq> [] \<longrightarrow> lastIndexOf (fst (decodeChunks [] chunks)) (ESC # ''[<'') \<le> 0)
   \<and> (ESC \<notin> set (concat chunks) \<longrightarrow> fst (decodeChunks [] chunks) = concat chunks)"
  using decodeChunks_suffix[of "[]" chunks] decodeChunks_introducer[of chunks "[]"]
    decodeChunks_no_esc[of "[]" chunks]
  by simp

theorem retained_buffer_shape_witness:
  "fst (decodeChunks [] [''ab'', ESC # ''[<6'']) = ESC # ''[<6''
   \<and> lastIndexOf (fst (decodeChunks [] [''ab'', ESC # ''[<6''])) (ESC # ''[<'') \<le> 0
   \<and> fst (decodeChunks [] [''ab'', ''cd'']) = ''abcd''"
proof -
  have 1: "fst (decodeChunks [] [''ab'', ESC # ''[<6'']) = ESC # ''[<6''"
    by (simp add: rx_eval)
  have "[''ab'', ESC # ''[<6''] \<noteq> []" by simp
  with retained_buffer_shape[of "[''ab'', ESC # ''[<6'']"]
  have 2: "lastIndexOf (fst (decodeChunks [] [''ab'', ESC # ''[<6''])) (ESC # ''[<'') \<le> 0"
    by blast
  have "ESC \<notin> set (concat [''ab'', ''cd''])" by (simp add: ESC_def)
  with retained_buffer_shape[of "[''ab'', ''cd'']"]
  have 3: "fst (decodeChunks [] [''ab'', ''cd'']) = ''abcd''" by simp
  show ?thesis using 1 2 3 by simp
qed

end
